theory Spec2Isabelle
  imports Main "HOL-Library.Word" "HOL-Library.Signed_Division"

begin

unbundle bit_operations_syntax

section \<open>Machine integers, memory reads and shifts\<close>

text \<open>
  The kernels of \<^verbatim>\<open>bcuda_impl.cu\<close> compute on \<^verbatim>\<open>PetscInt\<close>. The model is the default
  PETSc build (\<^verbatim>\<open>PETSC_USE_64BIT_INDICES\<close> undefined, the \<^verbatim>\<open>#else\<close> branches of the
  source): \<^verbatim>\<open>PetscInt\<close> is a signed 32-bit integer, here a \<open>32 word\<close> read through
  \<open>sint\<close>. Addition, subtraction and multiplication wrap; comparisons are the signed
  ones (\<open>\<le>s\<close>, \<open><s\<close>); \<^verbatim>\<open>>>\<close> on a \<^verbatim>\<open>PetscInt\<close> is the arithmetic shift.

  What C leaves undefined is an error value of the model: a read outside an array, and
  a shift whose count is negative or not below the width.
\<close>

type_synonym PetscInt = "32 word"

datatype error = OutOfBounds int | BadShift int

text \<open>\<^verbatim>\<open>xs[i]\<close> for a device array of \<open>length xs\<close> elements and a \<^verbatim>\<open>PetscInt\<close> index.\<close>

definition rd :: "PetscInt list \<Rightarrow> PetscInt \<Rightarrow> error + PetscInt" where
  "rd xs i =
     (if 0 \<le> sint i \<and> nat (sint i) < length xs then Inr (xs ! nat (sint i))
      else Inl (OutOfBounds (sint i)))"

text \<open>\<^verbatim>\<open>x << c\<close> and \<^verbatim>\<open>x >> c\<close> with a \<^verbatim>\<open>PetscInt\<close> count.\<close>

definition shl :: "PetscInt \<Rightarrow> PetscInt \<Rightarrow> error + PetscInt" where
  "shl x c =
     (if 0 \<le> sint c \<and> sint c < 32 then Inr (push_bit (nat (sint c)) x)
      else Inl (BadShift (sint c)))"

definition shr :: "PetscInt \<Rightarrow> PetscInt \<Rightarrow> error + PetscInt" where
  "shr x c =
     (if 0 \<le> sint c \<and> sint c < 32 then Inr (signed_drop_bit (nat (sint c)) x)
      else Inl (BadShift (sint c)))"

text \<open>\<^verbatim>\<open>x / 2\<close> on a \<^verbatim>\<open>PetscInt\<close>: C division truncates towards zero.\<close>

definition half :: "PetscInt \<Rightarrow> PetscInt" where
  "half x = word_of_int (sint x sdiv 2)"

text \<open>
  The CUDA intrinsic \<^verbatim>\<open>__popc\<close> returns the number of bits that are set in its 32-bit
  argument. \<open>popcount\<close> counts the set bits of a natural number; \<open>CUDA_POPCOUNT\<close> and
  \<open>CUDA_PARITY\<close> are the macros of the source (in \<^verbatim>\<open>bcuda_impl.cu\<close> the same
  expression \<^verbatim>\<open>__popc(x)&1\<close> is written inline).
\<close>

fun popcount :: "nat \<Rightarrow> nat" where
  "popcount n = (if n = 0 then 0 else n mod 2 + popcount (n div 2))"

declare popcount.simps [simp del]

definition CUDA_POPCOUNT :: "PetscInt \<Rightarrow> PetscInt" where
  "CUDA_POPCOUNT x = word_of_nat (popcount (unat x))"

definition CUDA_PARITY :: "PetscInt \<Rightarrow> PetscInt" where
  "CUDA_PARITY x = CUDA_POPCOUNT x AND 1"

section \<open>Parity codec\<close>

text \<open>
  \<^verbatim>\<open>data_Parity\<close> is declared in \<^verbatim>\<open>bcuda_impl.h\<close>; the kernels use its fields \<^verbatim>\<open>L\<close>
  (site count) and \<^verbatim>\<open>space\<close> (target parity). The two source files hold two
  implementations under the same names. The suffix \<open>_hi\<close> marks the functions of
  \<^verbatim>\<open>src/dynamite/_backend/bcuda_impl.cu\<close> (the index drops the high bit \<open>L - 1\<close>),
  the suffix \<open>_lo\<close> those of \<^verbatim>\<open>src/unnamed/part_000\<close> (the index drops bit 0).
\<close>

record data_Parity =
  Parity_L :: PetscInt
  Parity_space :: PetscInt

text \<open>\<^verbatim>\<open>#define PARITY_BIT(L) (1<<((L)-1))\<close> and \<^verbatim>\<open>#define PARITY_MASK(L) (PARITY_BIT(L)-1)\<close>.\<close>

definition PARITY_BIT :: "PetscInt \<Rightarrow> error + PetscInt" where
  "PARITY_BIT l = shl 1 (l - 1)"

definition PARITY_MASK :: "PetscInt \<Rightarrow> error + PetscInt" where
  "PARITY_MASK l = (case PARITY_BIT l of Inl e \<Rightarrow> Inl e | Inr b \<Rightarrow> Inr (b - 1))"

text \<open>\<^verbatim>\<open>return state & PARITY_MASK(data->L);\<close>\<close>

definition S2I_CUDA_Parity_hi :: "PetscInt \<Rightarrow> data_Parity \<Rightarrow> error + PetscInt" where
  "S2I_CUDA_Parity_hi state d =
     (case PARITY_MASK (Parity_L d) of Inl e \<Rightarrow> Inl e | Inr m \<Rightarrow> Inr (state AND m))"

text \<open>
  \<^verbatim>\<open>return idx | (( (data->space)^__popc(idx)&1 ) << (data->L - 1) );\<close>
  In C, \<^verbatim>\<open>&\<close> binds tighter than \<^verbatim>\<open>^\<close>.
\<close>

definition I2S_CUDA_Parity_hi :: "PetscInt \<Rightarrow> data_Parity \<Rightarrow> error + PetscInt" where
  "I2S_CUDA_Parity_hi idx d =
     (case shl (Parity_space d XOR (CUDA_POPCOUNT idx AND 1)) (Parity_L d - 1) of
        Inl e \<Rightarrow> Inl e
      | Inr b \<Rightarrow> Inr (idx OR b))"

text \<open>\<^verbatim>\<open>return (CUDA_PARITY(state) == data->space) ? state>>1 : (PetscInt)(-1);\<close>\<close>

definition S2I_CUDA_Parity_lo :: "PetscInt \<Rightarrow> data_Parity \<Rightarrow> PetscInt" where
  "S2I_CUDA_Parity_lo state d =
     (if CUDA_PARITY state = Parity_space d then signed_drop_bit 1 state else - 1)"

text \<open>\<^verbatim>\<open>return (idx<<1) | (CUDA_PARITY(idx) ^ data->space);\<close>\<close>

definition I2S_CUDA_Parity_lo :: "PetscInt \<Rightarrow> data_Parity \<Rightarrow> PetscInt" where
  "I2S_CUDA_Parity_lo idx d = push_bit 1 idx OR (CUDA_PARITY idx XOR Parity_space d)"

section \<open>SpinConserve codec\<close>

text \<open>
  \<^verbatim>\<open>data_SpinConserve\<close> is declared in \<^verbatim>\<open>bcuda_impl.h\<close>; the kernels use \<^verbatim>\<open>L\<close>, \<^verbatim>\<open>k\<close>,
  the table \<^verbatim>\<open>nchoosek\<close> and its row stride \<^verbatim>\<open>ld_nchoosek\<close>.
\<close>

record data_SpinConserve =
  SC_L :: PetscInt
  SC_k :: PetscInt
  SC_ld_nchoosek :: PetscInt
  SC_nchoosek :: "PetscInt list"

lemma sint_succ: "sint (n::PetscInt) < 2147483647 \<Longrightarrow> sint (n + 1) = sint n + 1"
  using sint_range_size [of n]
  apply (simp add: sint_word_ariths word_size)
  apply (rule signed_take_bit_int_eq_self)
   apply simp_all
  done

lemma sint_pred: "- 2147483648 < sint (n::PetscInt) \<Longrightarrow> sint (n - 1) = sint n - 1"
  using sint_range_size [of n]
  apply (simp add: sint_word_ariths word_size)
  apply (rule signed_take_bit_int_eq_self)
   apply simp_all
  done

lemma sless_succ_measure: "sint (n::PetscInt) < sint (l::PetscInt) \<Longrightarrow> sint n < sint (n + 1)"
proof -
  assume "sint n < sint l"
  moreover have "sint l < 2147483648"
    using sint_range_size [of l] by (simp add: word_size)
  ultimately have "sint n < 2147483647" by linarith
  then have "sint (n + 1) = sint n + 1" by (rule sint_succ)
  then show ?thesis by linarith
qed

lemma sless_pred_measure: "0 < sint (n::PetscInt) \<Longrightarrow> sint (n - 1) < sint n"
proof -
  assume "0 < sint n"
  then have "sint (n - 1) = sint n - 1" by (intro sint_pred) linarith
  then show ?thesis by linarith
qed

text \<open>
  One pass of the body of the \<^verbatim>\<open>for\<close> loop of \<^verbatim>\<open>S2I_CUDA_SpinConserve\<close> up to the
  shift: the new values of \<^verbatim>\<open>k\<close> and \<^verbatim>\<open>idx\<close>.
  \<^verbatim>\<open>if (state & 1) { k++; if (k <= n) idx += data->nchoosek[k*data->ld_nchoosek + n]; }\<close>
\<close>

definition S2I_count :: "data_SpinConserve \<Rightarrow> PetscInt \<Rightarrow> PetscInt \<Rightarrow> PetscInt \<Rightarrow> PetscInt
    \<Rightarrow> error + PetscInt \<times> PetscInt" where
  "S2I_count d n state k idx =
     (if state AND 1 \<noteq> 0 then
        (if k + 1 \<le>s n then
           (case rd (SC_nchoosek d) ((k + 1) * SC_ld_nchoosek d + n) of
              Inl e \<Rightarrow> Inl e
            | Inr c \<Rightarrow> Inr (k + 1, idx + c))
         else Inr (k + 1, idx))
      else Inr (k, idx))"

text \<open>
  The loop \<^verbatim>\<open>for (PetscInt n=0; n<data->L; ++n) { ...; state >>= 1; if (state == 0) return idx; }\<close>
  followed by \<^verbatim>\<open>return idx;\<close>.
\<close>

function S2I_loop :: "data_SpinConserve \<Rightarrow> PetscInt \<Rightarrow> PetscInt \<Rightarrow> PetscInt \<Rightarrow> PetscInt
    \<Rightarrow> error + PetscInt" where
  "S2I_loop d n state k idx =
     (if n <s SC_L d then
        (case S2I_count d n state k idx of
           Inl e \<Rightarrow> Inl e
         | Inr (k', idx') \<Rightarrow>
             (if signed_drop_bit 1 state = 0 then Inr idx'
              else S2I_loop d (n + 1) (signed_drop_bit 1 state) k' idx'))
      else Inr idx)"
  by pat_completeness auto

termination
  by (relation "measure (\<lambda>(d, n, state, k, idx). nat (sint (SC_L d) - sint n))")
     (auto simp add: word_sless_alt intro: sless_succ_measure)

declare S2I_loop.simps [simp del]

definition S2I_CUDA_SpinConserve :: "PetscInt \<Rightarrow> data_SpinConserve \<Rightarrow> error + PetscInt" where
  "S2I_CUDA_SpinConserve state d =
     (case shr state (SC_L d) of
        Inl e \<Rightarrow> Inl e
      | Inr hi \<Rightarrow>
          (if hi \<noteq> 0 then Inr (- 1)
           else if CUDA_POPCOUNT state \<noteq> SC_k d then Inr (- 1)
           else S2I_loop d 0 state 0 0))"

text \<open>
  The same function without the early exit \<^verbatim>\<open>if (state == 0) return idx;\<close>: the loop
  always runs its \<^verbatim>\<open>L\<close> passes. This variant is not in the source; it is the
  reference the early exit is compared with.
\<close>

function S2I_loop_noexit :: "data_SpinConserve \<Rightarrow> PetscInt \<Rightarrow> PetscInt \<Rightarrow> PetscInt \<Rightarrow> PetscInt
    \<Rightarrow> error + PetscInt" where
  "S2I_loop_noexit d n state k idx =
     (if n <s SC_L d then
        (case S2I_count d n state k idx of
           Inl e \<Rightarrow> Inl e
         | Inr (k', idx') \<Rightarrow> S2I_loop_noexit d (n + 1) (signed_drop_bit 1 state) k' idx')
      else Inr idx)"
  by pat_completeness auto

termination
  by (relation "measure (\<lambda>(d, n, state, k, idx). nat (sint (SC_L d) - sint n))")
     (auto simp add: word_sless_alt intro: sless_succ_measure)

declare S2I_loop_noexit.simps [simp del]

definition S2I_CUDA_SpinConserve_noexit :: "PetscInt \<Rightarrow> data_SpinConserve \<Rightarrow> error + PetscInt" where
  "S2I_CUDA_SpinConserve_noexit state d =
     (case shr state (SC_L d) of
        Inl e \<Rightarrow> Inl e
      | Inr hi \<Rightarrow>
          (if hi \<noteq> 0 then Inr (- 1)
           else if CUDA_POPCOUNT state \<noteq> SC_k d then Inr (- 1)
           else S2I_loop_noexit d 0 state 0 0))"

text \<open>
  The loop of \<^verbatim>\<open>I2S_CUDA_SpinConserve\<close>:
  \<^verbatim>\<open>for (PetscInt n=data->L; n>0; --n) {
       state <<= 1;
       current = (k > n-1) ? 0 : data->nchoosek[k*data->ld_nchoosek + n-1];
       if (idx >= current) { idx -= current; k--; state |= 1; } }\<close>
\<close>

function I2S_loop :: "data_SpinConserve \<Rightarrow> PetscInt \<Rightarrow> PetscInt \<Rightarrow> PetscInt \<Rightarrow> PetscInt
    \<Rightarrow> error + PetscInt" where
  "I2S_loop d n state k idx =
     (if 0 <s n then
        (case (if n - 1 <s k then Inr 0
               else rd (SC_nchoosek d) (k * SC_ld_nchoosek d + n - 1)) of
           Inl e \<Rightarrow> Inl e
         | Inr current \<Rightarrow>
             (if current \<le>s idx
              then I2S_loop d (n - 1) (push_bit 1 state OR 1) (k - 1) (idx - current)
              else I2S_loop d (n - 1) (push_bit 1 state) k idx))
      else Inr state)"
  by pat_completeness auto

termination
  by (relation "measure (\<lambda>(d, n, state, k, idx). nat (sint n))")
     (auto simp add: word_sless_alt intro: sless_pred_measure)

declare I2S_loop.simps [simp del]

definition I2S_CUDA_SpinConserve :: "PetscInt \<Rightarrow> data_SpinConserve \<Rightarrow> error + PetscInt" where
  "I2S_CUDA_SpinConserve idx d = I2S_loop d (SC_L d) 0 (SC_k d) idx"

section \<open>Auto codec\<close>

text \<open>
  \<^verbatim>\<open>data_Auto\<close> of \<^verbatim>\<open>src/unnamed/part_000\<close>: \<^verbatim>\<open>dim\<close>, the table \<^verbatim>\<open>state_map\<close> and the
  sorted reverse map \<^verbatim>\<open>rmap_states\<close> with its parallel array \<^verbatim>\<open>rmap_indices\<close>.
\<close>

record data_Auto =
  Auto_dim :: PetscInt
  Auto_state_map :: "PetscInt list"
  Auto_rmap_indices :: "PetscInt list"
  Auto_rmap_states :: "PetscInt list"

text \<open>
  The \<^verbatim>\<open>while (left <= right)\<close> loop of \<^verbatim>\<open>S2I_CUDA_Auto\<close>. A loop that ran forever
  would be the value \<open>None\<close>. The source reads \<^verbatim>\<open>data->rmap_states[mid]\<close> twice in
  one pass, at the same index; the model reads it once.
\<close>

partial_function (option) S2I_Auto_loop ::
    "data_Auto \<Rightarrow> PetscInt \<Rightarrow> PetscInt \<Rightarrow> PetscInt \<Rightarrow> (error + PetscInt) option" where
  "S2I_Auto_loop d state left right =
     (if left \<le>s right then
        (let mid = left + half (right - left) in
         case rd (Auto_rmap_states d) mid of
           Inl e \<Rightarrow> Some (Inl e)
         | Inr v \<Rightarrow>
             (if v = state then Some (rd (Auto_rmap_indices d) mid)
              else if v <s state then S2I_Auto_loop d state (mid + 1) right
              else S2I_Auto_loop d state left (mid - 1)))
      else Some (Inr (- 1)))"

declare S2I_Auto_loop.simps [code]

definition S2I_CUDA_Auto :: "PetscInt \<Rightarrow> data_Auto \<Rightarrow> (error + PetscInt) option" where
  "S2I_CUDA_Auto state d = S2I_Auto_loop d state 0 (Auto_dim d)"

definition I2S_CUDA_Auto :: "PetscInt \<Rightarrow> data_Auto \<Rightarrow> error + PetscInt" where
  "I2S_CUDA_Auto idx d = rd (Auto_state_map d) idx"

text \<open>
  A second reading of the same loop. On the device a read outside an array does not
  end the run: it yields the word the memory holds there, and the loop goes on. Here
  the memory outside \<^verbatim>\<open>rmap_states\<close> and \<^verbatim>\<open>rmap_indices\<close> is given by the functions
  \<open>os\<close> and \<open>oi\<close> (the word at each index outside the array), and reads cannot fail.
  \<open>S2I_Auto_pass\<close> is one pass of the body of the loop: the value it returns, or the
  new \<^verbatim>\<open>left\<close> and \<^verbatim>\<open>right\<close>.
\<close>

definition rd_mem :: "(int \<Rightarrow> PetscInt) \<Rightarrow> PetscInt list \<Rightarrow> PetscInt \<Rightarrow> PetscInt" where
  "rd_mem outside xs i =
     (if 0 \<le> sint i \<and> nat (sint i) < length xs then xs ! nat (sint i) else outside (sint i))"

definition S2I_Auto_pass :: "(int \<Rightarrow> PetscInt) \<Rightarrow> (int \<Rightarrow> PetscInt) \<Rightarrow> data_Auto
    \<Rightarrow> PetscInt \<Rightarrow> PetscInt \<Rightarrow> PetscInt \<Rightarrow> PetscInt + PetscInt \<times> PetscInt" where
  "S2I_Auto_pass os oi d state left right =
     (let mid = left + half (right - left) in
      if rd_mem os (Auto_rmap_states d) mid = state
      then Inl (rd_mem oi (Auto_rmap_indices d) mid)
      else if rd_mem os (Auto_rmap_states d) mid <s state then Inr (mid + 1, right)
      else Inr (left, mid - 1))"

partial_function (option) S2I_Auto_loop_mem :: "(int \<Rightarrow> PetscInt) \<Rightarrow> (int \<Rightarrow> PetscInt)
    \<Rightarrow> data_Auto \<Rightarrow> PetscInt \<Rightarrow> PetscInt \<Rightarrow> PetscInt \<Rightarrow> PetscInt option" where
  "S2I_Auto_loop_mem os oi d state left right =
     (if left \<le>s right then
        (case S2I_Auto_pass os oi d state left right of
           Inl v \<Rightarrow> Some v
         | Inr (l, r) \<Rightarrow> S2I_Auto_loop_mem os oi d state l r)
      else Some (- 1))"

declare S2I_Auto_loop_mem.simps [code]

definition S2I_CUDA_Auto_mem :: "(int \<Rightarrow> PetscInt) \<Rightarrow> (int \<Rightarrow> PetscInt) \<Rightarrow> PetscInt
    \<Rightarrow> data_Auto \<Rightarrow> PetscInt option" where
  "S2I_CUDA_Auto_mem os oi state d = S2I_Auto_loop_mem os oi d state 0 (Auto_dim d)"

section \<open>Device transfer\<close>

text \<open>
  \<^verbatim>\<open>CopySubspaceData_CUDA_SpinConserve\<close> and \<^verbatim>\<open>CopySubspaceData_CUDA_Auto\<close> of
  \<^verbatim>\<open>src/unnamed/part_000\<close> call the CUDA runtime and PETSc. The device is modelled by
  its live allocations and the next address \<^verbatim>\<open>cudaMalloc\<close> hands out; sizes and
  contents are left out. Whether a call of the runtime succeeds is not decided by the
  program: the functions take the result codes of their calls as the argument
  \<open>res\<close>, \<open>res i\<close> for the \<open>i\<close>-th call in program order, 0 for success
  (\<^verbatim>\<open>cudaSuccess\<close>). The PETSc macros \<^verbatim>\<open>CHKERRQ(ierr)\<close> and \<^verbatim>\<open>CHKERRCUDA(err)\<close> return
  from the enclosing function when the code is not 0, the first with \<^verbatim>\<open>ierr\<close> and the
  second with \<^verbatim>\<open>PETSC_ERR_LIB\<close>.
\<close>

type_synonym cudaError_t = nat

type_synonym PetscErrorCode = nat

type_synonym devptr = nat

record device =
  live :: "devptr list"
  fresh :: devptr

definition PETSC_ERR_LIB :: PetscErrorCode where
  "PETSC_ERR_LIB = 76"

definition cudaMalloc :: "cudaError_t \<Rightarrow> device \<Rightarrow> cudaError_t \<times> devptr \<times> device" where
  "cudaMalloc r dev =
     (if r = 0 then (0, fresh dev, \<lparr>live = fresh dev # live dev, fresh = Suc (fresh dev)\<rparr>)
      else (r, 0, dev))"

definition cudaMemcpy :: "cudaError_t \<Rightarrow> cudaError_t" where
  "cudaMemcpy r = r"

text \<open>
  The result: the error code, the value stored through \<^verbatim>\<open>out_p\<close> (if any) and the
  device after the call.
\<close>

definition CopySubspaceData_CUDA_SpinConserve ::
    "(nat \<Rightarrow> nat) \<Rightarrow> device \<Rightarrow> PetscErrorCode \<times> devptr option \<times> device" where
  "CopySubspaceData_CUDA_SpinConserve res dev =
     (let ierr = res 0 in
      if ierr \<noteq> 0 then (ierr, None, dev) else
      case cudaMalloc (res 1) dev of (err, nchoosek, dev1) \<Rightarrow>
      if err \<noteq> 0 then (PETSC_ERR_LIB, None, dev1) else
      if cudaMemcpy (res 2) \<noteq> 0 then (PETSC_ERR_LIB, None, dev1) else
      case cudaMalloc (res 3) dev1 of (err, out, dev2) \<Rightarrow>
      if err \<noteq> 0 then (PETSC_ERR_LIB, None, dev2) else
      if cudaMemcpy (res 4) \<noteq> 0 then (PETSC_ERR_LIB, Some out, dev2) else
      (ierr, Some out, dev2))"

definition CopySubspaceData_CUDA_Auto ::
    "(nat \<Rightarrow> nat) \<Rightarrow> device \<Rightarrow> PetscErrorCode \<times> devptr option \<times> device" where
  "CopySubspaceData_CUDA_Auto res dev =
     (let ierr = res 0 in
      if ierr \<noteq> 0 then (ierr, None, dev) else
      case cudaMalloc (res 1) dev of (err, state_map, dev1) \<Rightarrow>
      if err \<noteq> 0 then (PETSC_ERR_LIB, None, dev1) else
      if cudaMemcpy (res 2) \<noteq> 0 then (PETSC_ERR_LIB, None, dev1) else
      case cudaMalloc (res 3) dev1 of (err, rmap_indices, dev2) \<Rightarrow>
      if err \<noteq> 0 then (PETSC_ERR_LIB, None, dev2) else
      if cudaMemcpy (res 4) \<noteq> 0 then (PETSC_ERR_LIB, None, dev2) else
      case cudaMalloc (res 5) dev2 of (err, rmap_states, dev3) \<Rightarrow>
      if err \<noteq> 0 then (PETSC_ERR_LIB, None, dev3) else
      if cudaMemcpy (res 6) \<noteq> 0 then (PETSC_ERR_LIB, None, dev3) else
      case cudaMalloc (res 7) dev3 of (err, out, dev4) \<Rightarrow>
      if err \<noteq> 0 then (PETSC_ERR_LIB, None, dev4) else
      if cudaMemcpy (res 8) \<noteq> 0 then (PETSC_ERR_LIB, Some out, dev4) else
      (ierr, Some out, dev4))"

section \<open>Subspaces, well-formed codec data and examples\<close>

text \<open>
  The predicates and reference functions of this section are not in the source: they
  state what the claims about the codecs quantify over.

  The data of the Parity codec is well formed when \<^verbatim>\<open>L\<close> is between 1 and 31, so that every
  \<^verbatim>\<open>L\<close>-bit state is a non-negative \<^verbatim>\<open>PetscInt\<close>, and \<^verbatim>\<open>space\<close> is 0 or 1.
  The indices are \<open>[0, 2 ^ (L - 1))\<close>; the sector holds the \<^verbatim>\<open>L\<close>-bit states whose
  population count has the parity \<^verbatim>\<open>space\<close>.
\<close>

definition Parity_ok :: "data_Parity \<Rightarrow> bool" where
  "Parity_ok d \<longleftrightarrow>
     1 \<le> sint (Parity_L d) \<and> sint (Parity_L d) \<le> 31
     \<and> (Parity_space d = 0 \<or> Parity_space d = 1)"

definition Parity_index :: "data_Parity \<Rightarrow> PetscInt \<Rightarrow> bool" where
  "Parity_index d i \<longleftrightarrow> 0 \<le> sint i \<and> sint i < 2 ^ (nat (sint (Parity_L d)) - 1)"

definition Parity_member :: "data_Parity \<Rightarrow> PetscInt \<Rightarrow> bool" where
  "Parity_member d s \<longleftrightarrow>
     0 \<le> sint s \<and> sint s < 2 ^ nat (sint (Parity_L d)) \<and> CUDA_PARITY s = Parity_space d"

text \<open>
  The two loops of the SpinConserve codec, read on natural numbers with the exact
  binomial coefficients in place of the table. \<open>rank_from n kk s\<close> is what the loop of
  \<^verbatim>\<open>S2I_CUDA_SpinConserve\<close> adds to \<^verbatim>\<open>idx\<close> from position \<open>n\<close> on, \<open>kk\<close> set bits
  already seen and \<open>s\<close> the state shifted down by \<open>n\<close>. \<open>unrank n k idx\<close> is the
  state the loop of \<^verbatim>\<open>I2S_CUDA_SpinConserve\<close> builds in its last \<open>n\<close> passes.
\<close>

function rank_from :: "nat \<Rightarrow> nat \<Rightarrow> nat \<Rightarrow> nat" where
  "rank_from n kk s =
     (if s = 0 then 0
      else if odd s then (n choose Suc kk) + rank_from (Suc n) (Suc kk) (s div 2)
      else rank_from (Suc n) kk (s div 2))"
  by pat_completeness auto

termination
  by (relation "measure (\<lambda>(n, kk, s). s)") auto

declare rank_from.simps [simp del]

fun unrank :: "nat \<Rightarrow> nat \<Rightarrow> nat \<Rightarrow> nat" where
  "unrank 0 k idx = 0"
| "unrank (Suc n) k idx =
     (if (n choose k) \<le> idx then 2 ^ n + unrank n (k - 1) (idx - (n choose k))
      else unrank n k idx)"

text \<open>
  The data of the SpinConserve codec is well formed when \<^verbatim>\<open>L\<close> is between 0 and 31 (every \<^verbatim>\<open>L\<close>-bit state
  is a non-negative \<^verbatim>\<open>PetscInt\<close>), \<^verbatim>\<open>k\<close> is not negative, and the table satisfies its
  contract: for all \<open>i \<le> k\<close> and \<open>n \<le> L\<close> the read
  \<^verbatim>\<open>nchoosek[i*ld_nchoosek + n]\<close>, the index computed in \<^verbatim>\<open>PetscInt\<close> arithmetic, is
  inside the array and yields the binomial coefficient \<open>n choose i\<close>.
\<close>

definition SpinConserve_ok :: "data_SpinConserve \<Rightarrow> bool" where
  "SpinConserve_ok d \<longleftrightarrow>
     0 \<le> sint (SC_L d) \<and> sint (SC_L d) \<le> 31 \<and> 0 \<le> sint (SC_k d)
     \<and> (\<forall>i \<in> {..nat (sint (SC_k d))}. \<forall>n \<in> {..nat (sint (SC_L d))}.
          case rd (SC_nchoosek d) (word_of_nat i * SC_ld_nchoosek d + word_of_nat n) of
            Inl e \<Rightarrow> False
          | Inr c \<Rightarrow> sint c = int (n choose i))"

text \<open>
  The members of the subspace are the states of width at most \<^verbatim>\<open>L\<close> with population
  count \<^verbatim>\<open>k\<close>; the indices are \<open>[0, L choose k)\<close>.
\<close>

definition SpinConserve_member :: "data_SpinConserve \<Rightarrow> PetscInt \<Rightarrow> bool" where
  "SpinConserve_member d state \<longleftrightarrow>
     0 \<le> sint state \<and> sint state < 2 ^ nat (sint (SC_L d)) \<and> CUDA_POPCOUNT state = SC_k d"

definition SpinConserve_index :: "data_SpinConserve \<Rightarrow> PetscInt \<Rightarrow> bool" where
  "SpinConserve_index d i \<longleftrightarrow>
     0 \<le> sint i \<and> sint i < int (nat (sint (SC_L d)) choose nat (sint (SC_k d)))"

text \<open>
  Concrete codec data: the Parity codec with \<^verbatim>\<open>L = 3\<close> and target parity 0, the
  SpinConserve codec with \<^verbatim>\<open>L = 4\<close>, \<^verbatim>\<open>k = 2\<close> and the table of binomial
  coefficients with row stride 5, the Auto codec of the one-state subspace \<open>{1}\<close>,
  and a device without allocations.
\<close>

definition example_Parity :: data_Parity where
  "example_Parity = \<lparr>Parity_L = 3, Parity_space = 0\<rparr>"

definition example_SpinConserve :: data_SpinConserve where
  "example_SpinConserve =
     \<lparr>SC_L = 4, SC_k = 2, SC_ld_nchoosek = 5,
      SC_nchoosek = [1, 1, 1, 1, 1,  0, 1, 2, 3, 4,  0, 0, 1, 3, 6]\<rparr>"

definition example_Auto :: data_Auto where
  "example_Auto =
     \<lparr>Auto_dim = 1, Auto_state_map = [1], Auto_rmap_indices = [0], Auto_rmap_states = [1]\<rparr>"

definition empty_device :: device where
  "empty_device = \<lparr>live = [], fresh = 0\<rparr>"

text \<open>The second \<^verbatim>\<open>cudaMalloc\<close> fails with \<^verbatim>\<open>cudaErrorMemoryAllocation\<close> (2).\<close>

definition second_malloc_fails :: "nat \<Rightarrow> nat" where
  "second_malloc_fails i = (if i = 3 then 2 else 0)"

text \<open>The third \<^verbatim>\<open>cudaMemcpy\<close> fails with \<^verbatim>\<open>cudaErrorInvalidValue\<close> (1).\<close>

definition third_copy_fails :: "nat \<Rightarrow> nat" where
  "third_copy_fails i = (if i = 6 then 1 else 0)"

text \<open>The device after \<open>n\<close> further allocations, nothing freed.\<close>

definition allocated :: "nat \<Rightarrow> device \<Rightarrow> device" where
  "allocated n dev = \<lparr>live = rev [fresh dev..<fresh dev + n] @ live dev, fresh = fresh dev + n\<rparr>"




section \<open>Signed arithmetic without overflow\<close>

lemma sint_upper: "sint (x::PetscInt) < 2147483648"
  using sint_range_size [of x] by (simp add: word_size)

lemma sint_of_int_self:
  "- 2147483648 \<le> i \<Longrightarrow> i < 2147483648 \<Longrightarrow> sint (word_of_int i :: PetscInt) = i"
  by (simp add: sint_sbintrunc' signed_take_bit_int_eq_self)




section \<open>Auto codec: the binary search\<close>

text \<open>
  C2. The claim: with \<^verbatim>\<open>rmap_states\<close> sorted, \<^verbatim>\<open>S2I_CUDA_Auto\<close> returns -1 for every
  state that is absent, and every read of the search is at an index in \<open>[0, dim)\<close>.
  The search starts with \<^verbatim>\<open>right = data->dim\<close>, one past the last element. On the
  one-element subspace \<open>rmap_states = [1]\<close> the absent state 2 sends \<^verbatim>\<open>left\<close> to 1,
  and the next pass reads \<^verbatim>\<open>rmap_states[1]\<close>, outside the array. On the empty subspace
  (\<^verbatim>\<open>dim = 0\<close>) the first pass already reads \<^verbatim>\<open>rmap_states[0]\<close>.
\<close>

theorem S2I_CUDA_Auto_reads_past_end:
  "S2I_CUDA_Auto 2 example_Auto = Some (Inl (OutOfBounds 1))
   \<and> S2I_CUDA_Auto 2
         \<lparr>Auto_dim = 0, Auto_state_map = [], Auto_rmap_indices = [], Auto_rmap_states = []\<rparr>
       = Some (Inl (OutOfBounds 0))"
  by code_simp







text \<open>
  The two readings of the loop agree on every run whose reads stay inside the arrays.
\<close>

lemma rd_rd_mem: "rd xs i = Inr v \<Longrightarrow> rd_mem outside xs i = v"
  by (auto simp: rd_def rd_mem_def split: if_splits)

lemma S2I_Auto_loop_mem_agrees:
  assumes "S2I_Auto_loop d state left right = Some y"
  shows "\<forall>v. y = Inr v \<longrightarrow> S2I_Auto_loop_mem os oi d state left right = Some v"
proof (rule S2I_Auto_loop.raw_induct
    [where P = "\<lambda>d state left right y.
       \<forall>v. y = Inr v \<longrightarrow> S2I_Auto_loop_mem os oi d state left right = Some v",
     OF _ assms])
  fix loop :: "data_Auto \<Rightarrow> PetscInt \<Rightarrow> PetscInt \<Rightarrow> PetscInt \<Rightarrow> (error + PetscInt) option"
  fix d state left right y
  assume ih: "\<And>d state left right y. loop d state left right = Some y \<Longrightarrow>
      \<forall>v. y = Inr v \<longrightarrow> S2I_Auto_loop_mem os oi d state left right = Some v"
  assume body: "(if left \<le>s right
      then let mid = left + half (right - left)
           in case rd (Auto_rmap_states d) mid of
                Inl e \<Rightarrow> Some (Inl e)
              | Inr v \<Rightarrow>
                  if v = state then Some (rd (Auto_rmap_indices d) mid)
                  else if v <s state then loop d state (mid + 1) right
                  else loop d state left (mid - 1)
      else Some (Inr (- 1))) = Some y"
  show "\<forall>v. y = Inr v \<longrightarrow> S2I_Auto_loop_mem os oi d state left right = Some v"
  proof (intro allI impI)
    fix v assume y: "y = Inr v"
    define mid where "mid = left + half (right - left)"
    show "S2I_Auto_loop_mem os oi d state left right = Some v"
    proof (cases "left \<le>s right")
      case False
      then show ?thesis using body y by (subst S2I_Auto_loop_mem.simps) simp
    next
      case True
      show ?thesis
      proof (cases "rd (Auto_rmap_states d) mid")
        case (Inl e)
        then show ?thesis using body y True by (simp add: mid_def [symmetric] Let_def)
      next
        case (Inr w)
        then have w: "rd_mem os (Auto_rmap_states d) mid = w" by (rule rd_rd_mem)
        show ?thesis
        proof (cases "w = state")
          case eq: True
          then have "rd (Auto_rmap_indices d) mid = Inr v"
            using body y True Inr by (simp add: mid_def [symmetric] Let_def)
          then have "rd_mem oi (Auto_rmap_indices d) mid = v" by (rule rd_rd_mem)
          then have "S2I_Auto_pass os oi d state left right = Inl v"
            using w eq by (simp add: S2I_Auto_pass_def mid_def [symmetric] Let_def)
          then show ?thesis using True by (subst S2I_Auto_loop_mem.simps) simp
        next
          case ne: False
          show ?thesis
          proof (cases "w <s state")
            case lt: True
            then have "loop d state (mid + 1) right = Some y"
              using body True Inr ne by (simp add: mid_def [symmetric] Let_def)
            then have "S2I_Auto_loop_mem os oi d state (mid + 1) right = Some v"
              using ih y by blast
            moreover have "S2I_Auto_pass os oi d state left right = Inr (mid + 1, right)"
              using w ne lt by (simp add: S2I_Auto_pass_def mid_def [symmetric] Let_def)
            ultimately show ?thesis using True by (subst S2I_Auto_loop_mem.simps) simp
          next
            case ge: False
            then have "loop d state left (mid - 1) = Some y"
              using body True Inr ne by (simp add: mid_def [symmetric] Let_def)
            then have "S2I_Auto_loop_mem os oi d state left (mid - 1) = Some v"
              using ih y by blast
            moreover have "S2I_Auto_pass os oi d state left right = Inr (left, mid - 1)"
              using w ne ge by (simp add: S2I_Auto_pass_def mid_def [symmetric] Let_def)
            ultimately show ?thesis using True by (subst S2I_Auto_loop_mem.simps) simp
          qed
        qed
      qed
    qed
  qed
qed

lemma S2I_CUDA_Auto_mem_agrees:
  "S2I_CUDA_Auto state d = Some (Inr v) \<Longrightarrow> S2I_CUDA_Auto_mem os oi state d = Some v"
  using S2I_Auto_loop_mem_agrees [of d state 0 "Auto_dim d" "Inr v" os oi]
  by (simp add: S2I_CUDA_Auto_def S2I_CUDA_Auto_mem_def)



section \<open>SpinConserve codec: the early exit of the ranking loop\<close>

lemma S2I_count_zero: "S2I_count d n 0 k idx = Inr (k, idx)"
  by (simp add: S2I_count_def)

text \<open>Once the shifted state is zero, the remaining passes change nothing.\<close>

lemma S2I_loop_noexit_zero: "S2I_loop_noexit d n 0 k idx = Inr idx"
proof (induction "nat (sint (SC_L d) - sint n)" arbitrary: n rule: less_induct)
  case less
  show ?case
  proof (cases "n <s SC_L d")
    case True
    then have "sint n < sint (n + 1)" "sint n < sint (SC_L d)"
      by (auto simp: word_sless_alt intro: sless_succ_measure)
    then have "S2I_loop_noexit d (n + 1) 0 k idx = Inr idx"
      by (intro less.hyps) linarith
    then show ?thesis
      using True by (subst S2I_loop_noexit.simps) (simp add: S2I_count_zero)
  next
    case False
    then show ?thesis by (subst S2I_loop_noexit.simps) simp
  qed
qed

lemma S2I_loop_noexit_eq: "S2I_loop d n state k idx = S2I_loop_noexit d n state k idx"
proof (induction d n state k idx rule: S2I_loop.induct)
  case (1 d n state k idx)
  show ?case
  proof (cases "n <s SC_L d")
    case False
    then show ?thesis
      by (subst S2I_loop.simps, subst S2I_loop_noexit.simps) simp
  next
    case True
    show ?thesis
    proof (cases "S2I_count d n state k idx")
      case (Inl e)
      then show ?thesis
        using True by (subst S2I_loop.simps, subst S2I_loop_noexit.simps) simp
    next
      case (Inr p)
      obtain k' idx' where p: "p = (k', idx')" by (cases p)
      show ?thesis
      proof (cases "signed_drop_bit 1 state = 0")
        case z: True
        then show ?thesis
          using True Inr p
          by (subst S2I_loop.simps, subst S2I_loop_noexit.simps)
             (simp add: S2I_loop_noexit_zero)
      next
        case nz: False
        have "S2I_loop d (n + 1) (signed_drop_bit 1 state) k' idx'
              = S2I_loop_noexit d (n + 1) (signed_drop_bit 1 state) k' idx'"
          using "1.IH" [OF True Inr p [symmetric]] nz by simp
        then show ?thesis
          using True Inr p nz
          by (subst S2I_loop.simps, subst S2I_loop_noexit.simps) simp
      qed
    qed
  qed
qed

text \<open>
  C9. The early exit \<^verbatim>\<open>if (state == 0) return idx;\<close> of \<^verbatim>\<open>S2I_CUDA_SpinConserve\<close>
  preserves the result: for every state and every codec data (so also for every state
  that passes the two rejection checks) the function returns what the variant that
  always runs all \<^verbatim>\<open>L\<close> passes returns, errors included.
\<close>

theorem S2I_CUDA_SpinConserve_early_exit:
  "S2I_CUDA_SpinConserve state d = S2I_CUDA_SpinConserve_noexit state d"
  unfolding S2I_CUDA_SpinConserve_def S2I_CUDA_SpinConserve_noexit_def S2I_loop_noexit_eq
  by (rule refl)

section \<open>Population count and bit positions\<close>

lemma bits_nat_step:
  "{i. bit (n::nat) i} = (if odd n then {0} else {}) \<union> Suc ` {i. bit (n div 2) i}"
proof (rule set_eqI)
  fix i show "i \<in> {i. bit n i} \<longleftrightarrow> i \<in> (if odd n then {0} else {}) \<union> Suc ` {i. bit (n div 2) i}"
    by (cases i) (auto simp: bit_0 bit_Suc)
qed

lemma finite_bits_nat: "finite {i. bit (n::nat) i}"
proof (induction n rule: popcount.induct)
  case (1 n)
  show ?case
  proof (cases "n = 0")
    case True
    then show ?thesis by simp
  next
    case False
    then have "finite {i. bit (n div 2) i}" using 1 by simp
    then show ?thesis by (subst bits_nat_step) simp
  qed
qed

lemma popcount_card: "popcount n = card {i. bit n i}"
proof (induction n rule: popcount.induct)
  case (1 n)
  show ?case
  proof (cases "n = 0")
    case True
    then show ?thesis by (simp add: popcount.simps)
  next
    case False
    have fin: "finite (Suc ` {i. bit (n div 2) i})" by (simp add: finite_bits_nat)
    have "card {i. bit n i} = (if odd n then 1 else 0) + card (Suc ` {i. bit (n div 2) i})"
      by (subst bits_nat_step) (use fin in \<open>auto simp: card_insert_if\<close>)
    also have "card (Suc ` {i. bit (n div 2) i}) = card {i. bit (n div 2) i}"
      by (rule card_image) simp
    also have "\<dots> = popcount (n div 2)" using 1 False by simp
    finally show ?thesis using False
      by (subst popcount.simps) (auto simp: odd_iff_mod_2_eq_one)
  qed
qed

lemma bits_unat: "{i. bit (unat (w::PetscInt)) i} = {i. bit w i}"
  by (auto simp: bit_unsigned_iff)

lemma bits_word_bound: "{i. bit (w::PetscInt) i} \<subseteq> {..<32}"
  by (auto dest: bit_imp_le_length)

lemma card_bits_le: "card {i. bit (w::PetscInt) i} \<le> 32"
  using card_mono [OF _ bits_word_bound [of w]] by simp

lemma CUDA_POPCOUNT_card: "CUDA_POPCOUNT w = word_of_nat (card {i. bit w i})"
  by (simp add: CUDA_POPCOUNT_def popcount_card bits_unat)

lemma CUDA_PARITY_card: "CUDA_PARITY w = of_bool (odd (card {i. bit w i}))"
  by (simp add: CUDA_PARITY_def CUDA_POPCOUNT_card and_one_eq mod_2_eq_odd)

lemma uint_small_sint: "uint (w::PetscInt) < 2147483648 \<Longrightarrow> sint w = uint w"
proof -
  assume a: "uint w < 2147483648"
  have "sint w = signed_take_bit 31 (uint w)" by (simp add: sint_uint)
  also have "\<dots> = uint w"
    by (rule signed_take_bit_int_eq_self) (use a uint_ge_0 [of w] in \<open>simp_all, linarith\<close>)
  finally show ?thesis .
qed

lemma nonneg_sint_uint: "0 \<le> sint (w::PetscInt) \<Longrightarrow> sint w = uint w"
proof -
  assume a: "0 \<le> sint w"
  then have "\<not> bit w 31" using bit_last_iff [of w] by simp
  then have "signed_take_bit 31 (uint w) = take_bit 31 (uint w)"
    by (simp add: signed_take_bit_eq_if_positive bit_uint_iff)
  then have "sint w = take_bit 31 (uint w)" by (simp add: sint_uint)
  then have "sint w = uint (take_bit 31 w)" by (simp add: unsigned_take_bit_eq)
  moreover have "n < 31" if "bit w n" for n
  proof -
    have "n < 32" using that by (auto dest: bit_imp_le_length)
    moreover have "n \<noteq> 31" using that \<open>\<not> bit w 31\<close> by auto
    ultimately show ?thesis by linarith
  qed
  then have "take_bit 31 w = w"
    by (intro bit_word_eqI) (auto simp: bit_take_bit_iff)
  ultimately show ?thesis by simp
qed

lemma unat_lt_bits: "unat (w::PetscInt) < 2 ^ m \<longleftrightarrow> (\<forall>i. bit w i \<longrightarrow> i < m)"
proof -
  have "unat w < 2 ^ m \<longleftrightarrow> take_bit m (unat w) = unat w"
    by (simp add: take_bit_nat_eq_self_iff)
  also have "\<dots> \<longleftrightarrow> (\<forall>i. bit (take_bit m (unat w)) i = bit (unat w) i)"
    by (auto simp: bit_eq_iff)
  also have "\<dots> \<longleftrightarrow> (\<forall>i. bit w i \<longrightarrow> i < m)"
    by (auto simp: bit_take_bit_iff bit_unsigned_iff)
  finally show ?thesis .
qed

lemma uint_unat_lt: "uint (w::PetscInt) < 2 ^ m \<longleftrightarrow> unat w < 2 ^ m"
proof -
  have "uint w = int (unat w)" by (rule uint_nat)
  moreover have "(2::int) ^ m = int (2 ^ m)" by simp
  ultimately show ?thesis by (simp only: of_nat_less_iff)
qed

lemma sint_range_bits:
  assumes "m \<le> 31"
  shows "(0 \<le> sint (w::PetscInt) \<and> sint w < 2 ^ m) \<longleftrightarrow> (\<forall>i. bit w i \<longrightarrow> i < m)"
proof
  assume a: "0 \<le> sint w \<and> sint w < 2 ^ m"
  then have "uint w < 2 ^ m" using nonneg_sint_uint [of w] by simp
  then show "\<forall>i. bit w i \<longrightarrow> i < m" by (simp add: uint_unat_lt unat_lt_bits)
next
  assume b: "\<forall>i. bit w i \<longrightarrow> i < m"
  then have u: "uint w < 2 ^ m" by (simp add: uint_unat_lt unat_lt_bits)
  have "(2::int) ^ m \<le> 2 ^ 31" using assms by (intro power_increasing) simp_all
  then have "uint w < 2147483648" using u by simp
  then have "sint w = uint w" by (rule uint_small_sint)
  then show "0 \<le> sint w \<and> sint w < 2 ^ m" using u by simp
qed

section \<open>Parity codec: the two bijections\<close>

lemma of_bool_xor: "(of_bool a :: PetscInt) XOR of_bool b = of_bool (a \<noteq> b)"
  by (cases a; cases b) simp_all

lemma bits_of_bool: "{i. bit (of_bool c :: PetscInt) i} = (if c then {0} else {})"
  by (auto simp: bit_of_bool_iff)

lemma card_bits_or:
  assumes "\<And>i. \<not> (bit (a::PetscInt) i \<and> bit b i)"
  shows "card {i. bit (a OR b) i} = card {i. bit a i} + card {i. bit b i}"
proof -
  have "{i. bit (a OR b) i} = {i. bit a i} \<union> {i. bit b i}"
    by (auto simp: bit_or_iff)
  moreover have "{i. bit a i} \<inter> {i. bit b i} = {}" using assms by auto
  ultimately show ?thesis by (simp add: card_Un_disjoint)
qed

lemma card_bits_push_bit:
  assumes "\<And>i. bit (a::PetscInt) i \<Longrightarrow> i + m < 32"
  shows "card {i. bit (push_bit m a) i} = card {i. bit a i}"
proof -
  have "{i. bit (push_bit m a) i} = (\<lambda>i. i + m) ` {i. bit a i}"
  proof (rule set_eqI)
    fix n
    show "n \<in> {i. bit (push_bit m a) i} \<longleftrightarrow> n \<in> (\<lambda>i. i + m) ` {i. bit a i}"
    proof
      assume "n \<in> {i. bit (push_bit m a) i}"
      then have "m \<le> n" "bit a (n - m)" by (auto simp: bit_push_bit_iff)
      then show "n \<in> (\<lambda>i. i + m) ` {i. bit a i}"
        by (intro image_eqI [where x = "n - m"]) auto
    next
      assume "n \<in> (\<lambda>i. i + m) ` {i. bit a i}"
      then show "n \<in> {i. bit (push_bit m a) i}"
        using assms by (auto simp: bit_push_bit_iff)
    qed
  qed
  moreover have "card ((\<lambda>i. i + m) ` {i. bit a i}) = card {i. bit a i}"
    by (rule card_image) (simp add: inj_on_def)
  ultimately show ?thesis by simp
qed

lemma card_bits_of_bool: "card {i. bit (of_bool c :: PetscInt) i} = of_bool c"
  by (simp add: bits_of_bool)

lemma I2S_lo_card:
  assumes "\<And>i. bit idx i \<Longrightarrow> i < 31"
  shows "card {i. bit (push_bit 1 idx OR of_bool c :: PetscInt) i} = card {i. bit idx i} + of_bool c"
proof -
  have "card {i. bit (push_bit 1 idx OR of_bool c :: PetscInt) i}
        = card {i. bit (push_bit 1 idx) i} + card {i. bit (of_bool c :: PetscInt) i}"
    by (rule card_bits_or) (auto simp: bit_push_bit_iff bit_of_bool_iff bit_0)
  also have "card {i. bit (push_bit 1 idx) i} = card {i. bit idx i}"
    by (rule card_bits_push_bit) (use assms in force)
  finally show ?thesis by (simp add: card_bits_of_bool)
qed

lemma I2S_CUDA_Parity_lo_parity:
  assumes sp: "Parity_space d = 0 \<or> Parity_space d = 1"
    and idx: "\<And>i. bit idx i \<Longrightarrow> i < 31"
  shows "CUDA_PARITY (I2S_CUDA_Parity_lo idx d) = Parity_space d"
proof -
  define sp where "sp \<longleftrightarrow> Parity_space d = 1"
  have s: "Parity_space d = of_bool sp" using sp by (auto simp: sp_def)
  have "I2S_CUDA_Parity_lo idx d
        = push_bit 1 idx OR of_bool (odd (card {i. bit idx i}) \<noteq> sp)"
    by (simp add: I2S_CUDA_Parity_lo_def CUDA_PARITY_card s of_bool_xor)
  then have "CUDA_PARITY (I2S_CUDA_Parity_lo idx d)
        = of_bool (odd (card {i. bit idx i} + of_bool (odd (card {i. bit idx i}) \<noteq> sp)))"
    using I2S_lo_card [OF idx] by (simp add: CUDA_PARITY_card)
  also have "\<dots> = of_bool sp" by (cases sp) auto
  finally show ?thesis by (simp add: s)
qed

lemma shl_Parity:
  assumes "1 \<le> sint (l::PetscInt)" "sint l \<le> 32"
  shows "shl x (l - 1) = Inr (push_bit (nat (sint l) - 1) x)"
proof -
  have "sint (l - 1) = sint l - 1" using assms by (intro sint_pred) linarith
  moreover have "nat (sint l - 1) = nat (sint l) - 1" by linarith
  ultimately show ?thesis using assms by (simp add: shl_def)
qed

lemma PARITY_MASK_eq:
  assumes "1 \<le> sint (l::PetscInt)" "sint l \<le> 32"
  shows "PARITY_MASK l = Inr (mask (nat (sint l) - 1))"
  using assms by (simp add: PARITY_MASK_def PARITY_BIT_def shl_Parity mask_eq_exp_minus_1 push_bit_of_1)

lemma S2I_CUDA_Parity_hi_eq:
  assumes "1 \<le> sint (Parity_L d)" "sint (Parity_L d) \<le> 32"
  shows "S2I_CUDA_Parity_hi state d = Inr (take_bit (nat (sint (Parity_L d)) - 1) state)"
  using assms by (simp add: S2I_CUDA_Parity_hi_def PARITY_MASK_eq take_bit_eq_mask)

lemma take_bit_not_minus_1:
  assumes "m \<le> 31"
  shows "take_bit m (w::PetscInt) \<noteq> - 1"
proof
  assume "take_bit m w = - 1"
  then have "bit (take_bit m w) 31" by simp
  then show False using assms by (simp add: bit_take_bit_iff)
qed

lemma I2S_CUDA_Parity_hi_eq:
  assumes "1 \<le> sint (Parity_L d)" "sint (Parity_L d) \<le> 32"
    and "Parity_space d = of_bool sp"
  shows "I2S_CUDA_Parity_hi idx d
         = Inr (idx OR push_bit (nat (sint (Parity_L d)) - 1)
                        (of_bool (sp \<noteq> odd (card {i. bit idx i}))))"
proof -
  have "CUDA_POPCOUNT idx AND 1 = of_bool (odd (card {i. bit idx i}))"
    using CUDA_PARITY_card [of idx] by (simp add: CUDA_PARITY_def)
  then show ?thesis
    using assms by (simp add: I2S_CUDA_Parity_hi_def shl_Parity of_bool_xor)
qed

lemma I2S_hi_card:
  assumes "\<And>i. bit idx i \<Longrightarrow> i < m" and "m \<le> 31"
  shows "card {i. bit (idx OR push_bit m (of_bool c) :: PetscInt) i} = card {i. bit idx i} + of_bool c"
proof -
  have "card {i. bit (idx OR push_bit m (of_bool c) :: PetscInt) i}
        = card {i. bit idx i} + card {i. bit (push_bit m (of_bool c) :: PetscInt) i}"
    by (rule card_bits_or) (use assms in \<open>auto simp: bit_push_bit_iff bit_of_bool_iff\<close>)
  also have "card {i. bit (push_bit m (of_bool c) :: PetscInt) i} = card {i. bit (of_bool c :: PetscInt) i}"
    by (rule card_bits_push_bit) (use assms in \<open>auto simp: bit_of_bool_iff\<close>)
  finally show ?thesis by (simp add: card_bits_of_bool)
qed

lemma Parity_index_bits:
  assumes "1 \<le> sint (Parity_L d)" "sint (Parity_L d) \<le> 32"
  shows "Parity_index d i \<longleftrightarrow> (\<forall>n. bit i n \<longrightarrow> n < nat (sint (Parity_L d)) - 1)"
  unfolding Parity_index_def using assms by (intro sint_range_bits) linarith

lemma Parity_member_bits:
  assumes "sint (Parity_L d) \<le> 31"
  shows "Parity_member d s \<longleftrightarrow>
     (\<forall>n. bit s n \<longrightarrow> n < nat (sint (Parity_L d))) \<and> CUDA_PARITY s = Parity_space d"
proof -
  have "(0 \<le> sint s \<and> sint s < 2 ^ nat (sint (Parity_L d)))
        \<longleftrightarrow> (\<forall>n. bit s n \<longrightarrow> n < nat (sint (Parity_L d)))"
    using assms by (intro sint_range_bits) linarith
  then show ?thesis by (auto simp: Parity_member_def)
qed

lemma bit_double: "bit (i * 2 :: PetscInt) n \<longleftrightarrow> 0 < n \<and> n < 32 \<and> bit i (n - 1)"
  using bit_push_bit_iff [of 1 i n] by (auto simp: possible_bit_word)

lemma push_drop_bit0:
  assumes "\<not> bit (s::PetscInt) 31"
  shows "push_bit 1 (signed_drop_bit 1 s) OR of_bool (bit s 0) = s"
proof (rule bit_word_eqI)
  fix n assume n: "n < LENGTH(32)"
  show "bit (push_bit 1 (signed_drop_bit 1 s) OR of_bool (bit s 0)) n = bit s n"
  proof (cases n)
    case 0
    then show ?thesis by (simp add: bit_or_iff bit_double bit_of_bool_iff)
  next
    case (Suc k)
    then show ?thesis
      using n assms
      by (auto simp add: bit_or_iff bit_double bit_of_bool_iff bit_signed_drop_bit_iff)
  qed
qed

lemma signed_drop_push:
  assumes "\<And>n. bit (i::PetscInt) n \<Longrightarrow> n < 30"
  shows "signed_drop_bit 1 (push_bit 1 i OR of_bool c) = i"
proof (rule bit_word_eqI)
  fix n assume n: "n < LENGTH(32)"
  have a: "\<not> bit i 30" "\<not> bit i 31" using assms [of 30] assms [of 31] by auto
  show "bit (signed_drop_bit 1 (push_bit 1 i OR of_bool c)) n = bit i n"
  proof (cases "n = 31")
    case True
    then show ?thesis
      using a by (simp add: bit_signed_drop_bit_iff bit_or_iff bit_double bit_of_bool_iff)
  next
    case False
    then have "n < 31" using n by simp
    then show ?thesis
      by (simp add: bit_signed_drop_bit_iff bit_or_iff bit_double bit_of_bool_iff)
  qed
qed

lemma space_cases:
  assumes "Parity_space d = 0 \<or> Parity_space d = 1"
  obtains sp where "Parity_space d = of_bool sp"
  using assms by (metis of_bool_eq(1) of_bool_eq(2))

lemma I2S_CUDA_Parity_lo_eq:
  "Parity_space d = of_bool sp \<Longrightarrow>
   I2S_CUDA_Parity_lo idx d = push_bit 1 idx OR of_bool (odd (card {i. bit idx i}) \<noteq> sp)"
  by (simp add: I2S_CUDA_Parity_lo_def CUDA_PARITY_card of_bool_xor)

lemma Parity_lo_decode:
  assumes ok: "Parity_ok d" and ix: "Parity_index d i"
  shows "Parity_member d (I2S_CUDA_Parity_lo i d)"
    and "S2I_CUDA_Parity_lo (I2S_CUDA_Parity_lo i d) d = i"
proof -
  define m where "m = nat (sint (Parity_L d)) - 1"
  have L: "1 \<le> sint (Parity_L d)" "sint (Parity_L d) \<le> 31"
    and sp: "Parity_space d = 0 \<or> Parity_space d = 1"
    using ok by (auto simp: Parity_ok_def)
  have m: "m \<le> 30" "nat (sint (Parity_L d)) = Suc m" using L by (auto simp: m_def)
  have bits: "\<And>n. bit i n \<Longrightarrow> n < m"
    using ix L by (simp add: Parity_index_bits m_def)
  then have b31: "\<And>n. bit i n \<Longrightarrow> n < 31" and b30: "\<And>n. bit i n \<Longrightarrow> n < 30"
    using m by force+
  have par: "CUDA_PARITY (I2S_CUDA_Parity_lo i d) = Parity_space d"
    using sp b31 by (rule I2S_CUDA_Parity_lo_parity)
  obtain spb where spb: "Parity_space d = of_bool spb" using sp by (rule space_cases)
  note eq = I2S_CUDA_Parity_lo_eq [OF spb, of i]
  have "\<And>n. bit (I2S_CUDA_Parity_lo i d) n \<Longrightarrow> n < Suc m"
    unfolding eq using bits by (fastforce simp: bit_or_iff bit_double bit_of_bool_iff)
  then show "Parity_member d (I2S_CUDA_Parity_lo i d)"
    using par L m by (simp add: Parity_member_bits)
  have "signed_drop_bit 1 (I2S_CUDA_Parity_lo i d) = i"
    unfolding eq by (rule signed_drop_push [OF b30])
  then show "S2I_CUDA_Parity_lo (I2S_CUDA_Parity_lo i d) d = i"
    using par by (simp add: S2I_CUDA_Parity_lo_def)
qed

lemma Parity_lo_encode:
  assumes ok: "Parity_ok d" and mem: "Parity_member d s"
  shows "Parity_index d (S2I_CUDA_Parity_lo s d)"
    and "I2S_CUDA_Parity_lo (S2I_CUDA_Parity_lo s d) d = s"
proof -
  define m where "m = nat (sint (Parity_L d)) - 1"
  define i where "i = signed_drop_bit 1 s"
  have L: "1 \<le> sint (Parity_L d)" "sint (Parity_L d) \<le> 31"
    and sp: "Parity_space d = 0 \<or> Parity_space d = 1"
    using ok by (auto simp: Parity_ok_def)
  have m: "m \<le> 30" "nat (sint (Parity_L d)) = Suc m" using L by (auto simp: m_def)
  have bits: "\<And>n. bit s n \<Longrightarrow> n < Suc m" and par: "CUDA_PARITY s = Parity_space d"
    using mem L m by (auto simp: Parity_member_bits)
  have n31: "\<not> bit s 31" using bits m by fastforce
  have enc: "S2I_CUDA_Parity_lo s d = i"
    using par by (simp add: S2I_CUDA_Parity_lo_def i_def)
  have ibits: "\<And>n. bit i n \<Longrightarrow> n < m"
    using bits n31 by (fastforce simp: i_def bit_signed_drop_bit_iff split: if_splits)
  then show "Parity_index d (S2I_CUDA_Parity_lo s d)"
    using L by (simp add: enc Parity_index_bits m_def)
  have s: "s = push_bit 1 i OR of_bool (bit s 0)"
    using push_drop_bit0 [OF n31] by (simp add: i_def)
  have i31: "\<And>n. bit i n \<Longrightarrow> n < 31" using ibits m by force
  have "card {n. bit s n} = card {n. bit i n} + of_bool (bit s 0)"
    by (subst s) (rule I2S_lo_card [OF i31])
  moreover have "Parity_space d = of_bool (odd (card {n. bit s n}))"
    using par by (simp add: CUDA_PARITY_card)
  ultimately have "CUDA_PARITY i XOR Parity_space d = of_bool (bit s 0)"
    by (simp add: CUDA_PARITY_card of_bool_xor)
  then have "I2S_CUDA_Parity_lo i d = push_bit 1 i OR of_bool (bit s 0)"
    by (simp add: I2S_CUDA_Parity_lo_def)
  then show "I2S_CUDA_Parity_lo (S2I_CUDA_Parity_lo s d) d = s"
    using s enc by simp
qed

lemma Parity_hi_decode:
  assumes ok: "Parity_ok d" and ix: "Parity_index d i"
  shows "\<exists>s. I2S_CUDA_Parity_hi i d = Inr s \<and> Parity_member d s \<and> S2I_CUDA_Parity_hi s d = Inr i"
proof -
  define m where "m = nat (sint (Parity_L d)) - 1"
  have L: "1 \<le> sint (Parity_L d)" "sint (Parity_L d) \<le> 31" "sint (Parity_L d) \<le> 32"
    and sp: "Parity_space d = 0 \<or> Parity_space d = 1"
    using ok by (auto simp: Parity_ok_def)
  have m: "m \<le> 30" "m \<le> 31" "nat (sint (Parity_L d)) = Suc m" using L by (auto simp: m_def)
  have bits: "\<And>n. bit i n \<Longrightarrow> n < m"
    using ix L by (simp add: Parity_index_bits m_def)
  obtain spb where spb: "Parity_space d = of_bool spb" using sp by (rule space_cases)
  define c where "c \<longleftrightarrow> spb \<noteq> odd (card {n. bit i n})"
  define s :: PetscInt where "s = i OR push_bit m (of_bool c)"
  have dec: "I2S_CUDA_Parity_hi i d = Inr s"
    using I2S_CUDA_Parity_hi_eq [OF L(1) L(3) spb, of i] by (simp add: s_def c_def m_def)
  have "card {n. bit s n} = card {n. bit i n} + of_bool c"
    unfolding s_def using bits m(2) by (rule I2S_hi_card)
  then have "CUDA_PARITY s = of_bool spb"
    by (cases spb) (auto simp: CUDA_PARITY_card c_def)
  moreover have "\<And>n. bit s n \<Longrightarrow> n < Suc m"
    using bits by (fastforce simp: s_def bit_or_iff bit_push_bit_iff bit_of_bool_iff)
  ultimately have mem: "Parity_member d s"
    using L m spb by (simp add: Parity_member_bits)
  have "take_bit m s = i"
    by (rule bit_word_eqI)
       (use bits in \<open>auto simp: s_def bit_take_bit_iff bit_or_iff bit_push_bit_iff\<close>)
  then have "S2I_CUDA_Parity_hi s d = Inr i"
    using S2I_CUDA_Parity_hi_eq [OF L(1) L(3), of s] by (simp add: m_def)
  with dec mem show ?thesis by blast
qed

lemma Parity_hi_encode:
  assumes ok: "Parity_ok d" and mem: "Parity_member d s"
  shows "\<exists>i. S2I_CUDA_Parity_hi s d = Inr i \<and> Parity_index d i \<and> I2S_CUDA_Parity_hi i d = Inr s"
proof -
  define m where "m = nat (sint (Parity_L d)) - 1"
  define i where "i = take_bit m s"
  have L: "1 \<le> sint (Parity_L d)" "sint (Parity_L d) \<le> 31" "sint (Parity_L d) \<le> 32"
    and sp: "Parity_space d = 0 \<or> Parity_space d = 1"
    using ok by (auto simp: Parity_ok_def)
  have m: "m \<le> 30" "m \<le> 31" "nat (sint (Parity_L d)) = Suc m" using L by (auto simp: m_def)
  have bits: "\<And>n. bit s n \<Longrightarrow> n < Suc m" and par: "CUDA_PARITY s = Parity_space d"
    using mem L m by (auto simp: Parity_member_bits)
  have enc: "S2I_CUDA_Parity_hi s d = Inr i"
    using S2I_CUDA_Parity_hi_eq [OF L(1) L(3), of s] by (simp add: m_def i_def)
  have ibits: "\<And>n. bit i n \<Longrightarrow> n < m"
    by (simp add: i_def bit_take_bit_iff)
  then have ix: "Parity_index d i"
    using L by (simp add: Parity_index_bits m_def)
  have s: "s = i OR push_bit m (of_bool (bit s m))"
  proof (rule bit_word_eqI)
    fix n assume "n < LENGTH(32)"
    have "n = m" if "bit s n" "\<not> n < m"
      using bits [of n] that by linarith
    then show "bit s n = bit (i OR push_bit m (of_bool (bit s m))) n"
      using bits [of n]
      by (auto simp: i_def bit_or_iff bit_take_bit_iff bit_push_bit_iff bit_of_bool_iff
          possible_bit_word dest: bit_imp_le_length)
  qed
  have "card {n. bit s n} = card {n. bit i n} + of_bool (bit s m)"
    by (subst s) (rule I2S_hi_card [OF ibits m(2)])
  moreover have spb: "Parity_space d = of_bool (odd (card {n. bit s n}))"
    using par by (simp add: CUDA_PARITY_card)
  ultimately have "(odd (card {n. bit s n}) \<noteq> odd (card {n. bit i n})) = bit s m"
    by auto
  then have "I2S_CUDA_Parity_hi i d = Inr (i OR push_bit m (of_bool (bit s m)))"
    using I2S_CUDA_Parity_hi_eq [OF L(1) L(3) spb, of i] by (simp add: m_def)
  then have "I2S_CUDA_Parity_hi i d = Inr s" using s by simp
  with enc ix show ?thesis by blast
qed

lemma parity_nat:
  assumes "CUDA_PARITY s = Parity_space d"
  shows "popcount (unat s) mod 2 = unat (Parity_space d)"
proof -
  have "Parity_space d = of_bool (odd (card {n. bit s n}))"
    using assms by (simp add: CUDA_PARITY_card)
  moreover have "popcount (unat s) = card {n. bit s n}"
    by (simp add: popcount_card bits_unat)
  ultimately show ?thesis by (simp add: mod_2_eq_odd)
qed

text \<open>
  C6. For both implementations of the Parity codec, with site count \<^verbatim>\<open>L\<close> and target
  parity \<^verbatim>\<open>space\<close>: for every index \<open>i\<close> in \<open>[0, 2 ^ (L - 1))\<close> the population count
  of \<^verbatim>\<open>I2S_CUDA_Parity(i)\<close> is \<^verbatim>\<open>space\<close> modulo 2.
\<close>

theorem I2S_CUDA_Parity_target_parity:
  assumes "Parity_ok d" and "Parity_index d i"
  shows "popcount (unat (I2S_CUDA_Parity_lo i d)) mod 2 = unat (Parity_space d)
       \<and> (\<exists>s. I2S_CUDA_Parity_hi i d = Inr s
              \<and> popcount (unat s) mod 2 = unat (Parity_space d))"
proof
  have "Parity_member d (I2S_CUDA_Parity_lo i d)"
    using assms by (rule Parity_lo_decode)
  then show "popcount (unat (I2S_CUDA_Parity_lo i d)) mod 2 = unat (Parity_space d)"
    by (intro parity_nat) (simp add: Parity_member_def)
  obtain s where "I2S_CUDA_Parity_hi i d = Inr s" "Parity_member d s"
    using Parity_hi_decode [OF assms] by blast
  then show "\<exists>s. I2S_CUDA_Parity_hi i d = Inr s
              \<and> popcount (unat s) mod 2 = unat (Parity_space d)"
    by (auto simp: Parity_member_def intro: parity_nat)
qed

lemma example_Parity_index: "Parity_index example_Parity i \<longleftrightarrow> i \<in> {0, 1, 2, 3}"
proof
  assume "Parity_index example_Parity i"
  then have "0 \<le> sint i" "sint i < 4" by (simp_all add: Parity_index_def example_Parity_def)
  then have "sint i = 0 \<or> sint i = 1 \<or> sint i = 2 \<or> sint i = 3" by linarith
  moreover have "word_of_int (sint i) = i" by simp
  ultimately show "i \<in> {0, 1, 2, 3}" by (metis insertCI of_int_0 of_int_1 of_int_numeral)
next
  assume "i \<in> {0, 1, 2, 3}"
  then show "Parity_index example_Parity i"
    by (auto simp: Parity_index_def example_Parity_def)
qed

theorem I2S_CUDA_Parity_target_parity_witness:
  "Parity_ok example_Parity \<and> Parity_index example_Parity 1
   \<and> popcount (unat (I2S_CUDA_Parity_lo 1 example_Parity)) mod 2 = unat (Parity_space example_Parity)
   \<and> (\<exists>s. I2S_CUDA_Parity_hi 1 example_Parity = Inr s
          \<and> popcount (unat s) mod 2 = unat (Parity_space example_Parity))"
proof -
  have a: "Parity_ok example_Parity" by (simp add: Parity_ok_def example_Parity_def)
  have b: "Parity_index example_Parity 1" by (simp add: Parity_index_def example_Parity_def)
  show ?thesis using a b I2S_CUDA_Parity_target_parity [OF a b] by simp
qed

lemma ex_lo: "map (\<lambda>i. I2S_CUDA_Parity_lo i example_Parity) [0, 1, 2, 3] = [0, 3, 5, 6]"
  by code_simp

lemma ex_hi: "map (\<lambda>i. I2S_CUDA_Parity_hi i example_Parity) [0, 1, 2, 3] = [Inr 0, Inr 5, Inr 6, Inr 3]"
  by code_simp

text \<open>
  C8. For each implementation of the Parity codec (the index drops the low bit, or
  the high bit), decoding restricted to \<open>[0, 2 ^ (L - 1))\<close> is a bijection onto the
  \<^verbatim>\<open>L\<close>-bit states whose population count has the target parity, and encoding is
  its inverse there. For \<^verbatim>\<open>L = 3\<close> and target parity 0 the image of the indices is
  \<open>{0b000, 0b011, 0b101, 0b110}\<close>.
\<close>

theorem Parity_bijection:
  assumes "Parity_ok d"
  shows "(\<forall>i. Parity_index d i \<longrightarrow>
            Parity_member d (I2S_CUDA_Parity_lo i d)
            \<and> S2I_CUDA_Parity_lo (I2S_CUDA_Parity_lo i d) d = i)
       \<and> (\<forall>s. Parity_member d s \<longrightarrow>
            Parity_index d (S2I_CUDA_Parity_lo s d)
            \<and> I2S_CUDA_Parity_lo (S2I_CUDA_Parity_lo s d) d = s)
       \<and> bij_betw (\<lambda>i. I2S_CUDA_Parity_lo i d) {i. Parity_index d i} {s. Parity_member d s}
       \<and> (\<forall>i. Parity_index d i \<longrightarrow>
            (\<exists>s. I2S_CUDA_Parity_hi i d = Inr s \<and> Parity_member d s
                 \<and> S2I_CUDA_Parity_hi s d = Inr i))
       \<and> (\<forall>s. Parity_member d s \<longrightarrow>
            (\<exists>i. S2I_CUDA_Parity_hi s d = Inr i \<and> Parity_index d i
                 \<and> I2S_CUDA_Parity_hi i d = Inr s))
       \<and> bij_betw (\<lambda>i. I2S_CUDA_Parity_hi i d) {i. Parity_index d i}
            (Inr ` {s. Parity_member d s})
       \<and> (\<lambda>i. I2S_CUDA_Parity_lo i example_Parity) ` {i. Parity_index example_Parity i}
            = {0, 3, 5, 6}
       \<and> (\<lambda>i. I2S_CUDA_Parity_hi i example_Parity) ` {i. Parity_index example_Parity i}
            = Inr ` {0, 3, 5, 6}"
proof -
  note lo1 = Parity_lo_decode [OF assms] and lo2 = Parity_lo_encode [OF assms]
    and hi1 = Parity_hi_decode [OF assms] and hi2 = Parity_hi_encode [OF assms]
  have blo: "bij_betw (\<lambda>i. I2S_CUDA_Parity_lo i d) {i. Parity_index d i} {s. Parity_member d s}"
    by (rule bij_betw_byWitness [where f' = "\<lambda>s. S2I_CUDA_Parity_lo s d"])
       (auto simp: lo1 lo2)
  have bhi: "bij_betw (\<lambda>i. I2S_CUDA_Parity_hi i d) {i. Parity_index d i}
      (Inr ` {s. Parity_member d s})"
  proof (rule bij_betw_byWitness [where f' = "\<lambda>r. projr (S2I_CUDA_Parity_hi (projr r) d)"])
    show "\<forall>x\<in>{i. Parity_index d i}.
            projr (S2I_CUDA_Parity_hi (projr (I2S_CUDA_Parity_hi x d)) d) = x"
      using hi1 by fastforce
    show "\<forall>y\<in>Inr ` {s. Parity_member d s}.
            I2S_CUDA_Parity_hi (projr (S2I_CUDA_Parity_hi (projr y) d)) d = y"
      using hi2 by fastforce
    show "(\<lambda>i. I2S_CUDA_Parity_hi i d) ` {i. Parity_index d i} \<subseteq> Inr ` {s. Parity_member d s}"
      using hi1 by fastforce
    show "(\<lambda>r. projr (S2I_CUDA_Parity_hi (projr r) d)) ` Inr ` {s. Parity_member d s}
            \<subseteq> {i. Parity_index d i}"
      using hi2 by fastforce
  qed
  have ix: "{i. Parity_index example_Parity i} = set [0, 1, 2, 3]"
    by (auto simp: example_Parity_index)
  have e1: "(\<lambda>i. I2S_CUDA_Parity_lo i example_Parity) ` {i. Parity_index example_Parity i}
            = {0, 3, 5, 6}"
    unfolding ix image_set ex_lo by simp
  have e2: "(\<lambda>i. I2S_CUDA_Parity_hi i example_Parity) ` {i. Parity_index example_Parity i}
            = Inr ` {0, 3, 5, 6}"
    unfolding ix image_set ex_hi by auto
  show ?thesis using lo1 lo2 hi1 hi2 blo bhi e1 e2 by blast
qed

theorem Parity_bijection_witness:
  "Parity_ok example_Parity \<and> Parity_index example_Parity 2
   \<and> Parity_member example_Parity (I2S_CUDA_Parity_lo 2 example_Parity)
   \<and> S2I_CUDA_Parity_lo (I2S_CUDA_Parity_lo 2 example_Parity) example_Parity = 2
   \<and> Parity_member example_Parity 6
   \<and> I2S_CUDA_Parity_hi 2 example_Parity = Inr 6
   \<and> S2I_CUDA_Parity_hi 6 example_Parity = Inr 2"
proof -
  have a: "Parity_ok example_Parity" by (simp add: Parity_ok_def example_Parity_def)
  have b: "Parity_index example_Parity 2" by (simp add: Parity_index_def example_Parity_def)
  have c: "I2S_CUDA_Parity_hi 2 example_Parity = Inr 6" by code_simp
  have "Parity_member example_Parity (I2S_CUDA_Parity_lo 2 example_Parity)
        \<and> S2I_CUDA_Parity_lo (I2S_CUDA_Parity_lo 2 example_Parity) example_Parity = 2"
    using Parity_bijection [OF a] b by blast
  moreover have "\<exists>s. I2S_CUDA_Parity_hi 2 example_Parity = Inr s \<and> Parity_member example_Parity s
                 \<and> S2I_CUDA_Parity_hi s example_Parity = Inr 2"
    using Parity_bijection [OF a] b by blast
  ultimately show ?thesis using a b c by auto
qed

text \<open>
  C3, as the code has it. The implementation of \<^verbatim>\<open>bcuda_impl.cu\<close> (\<open>_hi\<close>), for
  \<^verbatim>\<open>L\<close> between 1 and 32, returns the state with the bits from \<open>L - 1\<close> upwards
  cleared, \<open>state AND (2 ^ (L - 1) - 1)\<close>, for every state, and never the sentinel -1:
  it does not validate membership. The implementation of \<^verbatim>\<open>part_000\<close> (\<open>_lo\<close>)
  validates: it returns \<^verbatim>\<open>state >> 1\<close> when the parity of the state is \<^verbatim>\<open>space\<close> and
  the sentinel -1 otherwise.
\<close>

theorem S2I_CUDA_Parity_encode:
  assumes "1 \<le> sint (Parity_L d)" and "sint (Parity_L d) \<le> 32"
  shows "S2I_CUDA_Parity_hi state d = Inr (state AND (2 ^ (nat (sint (Parity_L d)) - 1) - 1))
       \<and> S2I_CUDA_Parity_hi state d \<noteq> Inr (- 1)
       \<and> S2I_CUDA_Parity_lo state d =
           (if CUDA_PARITY state = Parity_space d then signed_drop_bit 1 state else - 1)"
proof -
  have "nat (sint (Parity_L d)) - 1 \<le> 31" using assms by linarith
  then have "take_bit (nat (sint (Parity_L d)) - 1) state \<noteq> - 1"
    by (rule take_bit_not_minus_1)
  then show ?thesis
    using assms
    by (simp add: S2I_CUDA_Parity_hi_eq S2I_CUDA_Parity_lo_def take_bit_eq_mask mask_eq_exp_minus_1)
qed

theorem S2I_CUDA_Parity_encode_witness:
  "1 \<le> sint (Parity_L example_Parity) \<and> sint (Parity_L example_Parity) \<le> 32
   \<and> S2I_CUDA_Parity_hi 5 example_Parity = Inr 1
   \<and> S2I_CUDA_Parity_lo 5 example_Parity = 2"
proof -
  have a: "1 \<le> sint (Parity_L example_Parity)" "sint (Parity_L example_Parity) \<le> 32"
    by (simp_all add: example_Parity_def)
  have b: "CUDA_PARITY 5 = Parity_space example_Parity" by code_simp
  show ?thesis
    using a b S2I_CUDA_Parity_encode [OF a, of 5] by (simp add: example_Parity_def)
qed

text \<open>
  C3 as stated fails on the implementation of \<^verbatim>\<open>part_000\<close>: with \<^verbatim>\<open>L = 3\<close> and
  \<^verbatim>\<open>space = 0\<close> the state 1 has odd parity and is encoded as the sentinel -1, not as
  \<open>1 AND (2 ^ 2 - 1)\<close>.
\<close>

theorem S2I_CUDA_Parity_lo_validates:
  "S2I_CUDA_Parity_lo 1 example_Parity = - 1
   \<and> S2I_CUDA_Parity_lo 1 example_Parity \<noteq> 1 AND (2 ^ (3 - 1) - 1)"
  by code_simp

section \<open>Device transfer: a failure leaves the earlier allocations live\<close>

text \<open>
  C4 as stated fails: the claim is that after a failure partway no allocation made
  earlier in the same call remains live. When the second \<^verbatim>\<open>cudaMalloc\<close> fails on an
  empty device, both functions return an error and the allocation of the first
  \<^verbatim>\<open>cudaMalloc\<close> (address 0) is still live.
\<close>

theorem CopySubspaceData_leaks:
  "fst (CopySubspaceData_CUDA_SpinConserve second_malloc_fails empty_device) \<noteq> 0
   \<and> live (snd (snd (CopySubspaceData_CUDA_SpinConserve second_malloc_fails empty_device))) = [0]
   \<and> fst (CopySubspaceData_CUDA_Auto second_malloc_fails empty_device) \<noteq> 0
   \<and> live (snd (snd (CopySubspaceData_CUDA_Auto second_malloc_fails empty_device))) = [0]"
  by (simp add: CopySubspaceData_CUDA_SpinConserve_def CopySubspaceData_CUDA_Auto_def
      second_malloc_fails_def empty_device_def cudaMalloc_def cudaMemcpy_def PETSC_ERR_LIB_def)

text \<open>The exact result of each function when step \<open>j\<close> is the first that fails.\<close>

lemma allocated_simps:
  "allocated 0 dev = \<lparr>live = live dev, fresh = fresh dev\<rparr>"
  "allocated (Suc 0) dev = \<lparr>live = fresh dev # live dev, fresh = Suc (fresh dev)\<rparr>"
  "allocated 2 dev = \<lparr>live = Suc (fresh dev) # fresh dev # live dev, fresh = Suc (Suc (fresh dev))\<rparr>"
  "allocated 3 dev = \<lparr>live = Suc (Suc (fresh dev)) # Suc (fresh dev) # fresh dev # live dev,
      fresh = Suc (Suc (Suc (fresh dev)))\<rparr>"
  "allocated 4 dev = \<lparr>live = Suc (Suc (Suc (fresh dev))) # Suc (Suc (fresh dev)) # Suc (fresh dev)
        # fresh dev # live dev,
      fresh = Suc (Suc (Suc (Suc (fresh dev))))\<rparr>"
  by (simp_all add: allocated_def upt_rec [of "fresh dev"] upt_rec [of "Suc (fresh dev)"]
      upt_rec [of "Suc (Suc (fresh dev))"] upt_rec [of "Suc (Suc (Suc (fresh dev)))"] eval_nat_numeral)

lemma CopySubspaceData_CUDA_SpinConserve_first_failure:
  assumes j: "j < 5" and z: "\<And>i. i < j \<Longrightarrow> rs i = 0" and f: "rs j \<noteq> 0"
  shows "CopySubspaceData_CUDA_SpinConserve rs dev
         = (if j = 0 then rs 0 else PETSC_ERR_LIB,
            if j = 4 then Some (fresh dev + 1) else None,
            allocated (j div 2) dev)"
proof -
  note defs = CopySubspaceData_CUDA_SpinConserve_def cudaMalloc_def cudaMemcpy_def Let_def
    allocated_simps
  consider "j = 0" | "j = 1" | "j = 2" | "j = 3" | "j = 4" using j by linarith
  then show ?thesis
  proof cases
    case 1
    then show ?thesis using f by (simp add: defs)
  next
    case 2
    then show ?thesis using f z [of 0] by (simp add: defs)
  next
    case 3
    then show ?thesis using f z [of 0] z [of 1] by (simp add: defs)
  next
    case 4
    then show ?thesis using f z [of 0] z [of 1] z [of 2] by (simp add: defs)
  next
    case 5
    then show ?thesis using f z [of 0] z [of 1] z [of 2] z [of 3] by (simp add: defs)
  qed
qed

lemma CopySubspaceData_CUDA_Auto_first_failure:
  assumes j: "j < 9" and z: "\<And>i. i < j \<Longrightarrow> ra i = 0" and f: "ra j \<noteq> 0"
  shows "CopySubspaceData_CUDA_Auto ra dev
         = (if j = 0 then ra 0 else PETSC_ERR_LIB,
            if j = 8 then Some (fresh dev + 3) else None,
            allocated (j div 2) dev)"
proof -
  note defs = CopySubspaceData_CUDA_Auto_def cudaMalloc_def cudaMemcpy_def Let_def
    allocated_simps
  consider "j = 0" | "j = 1" | "j = 2" | "j = 3" | "j = 4" | "j = 5" | "j = 6" | "j = 7" | "j = 8"
    using j by linarith
  then show ?thesis
  proof cases
    case 1
    then show ?thesis using f by (simp add: defs)
  next
    case 2
    then show ?thesis using f z [of 0] by (simp add: defs)
  next
    case 3
    then show ?thesis using f z [of 0] z [of 1] by (simp add: defs)
  next
    case 4
    then show ?thesis using f z [of 0] z [of 1] z [of 2] by (simp add: defs)
  next
    case 5
    then show ?thesis using f z [of 0] z [of 1] z [of 2] z [of 3] by (simp add: defs)
  next
    case 6
    then show ?thesis using f z [of 0] z [of 1] z [of 2] z [of 3] z [of 4] by (simp add: defs)
  next
    case 7
    then show ?thesis
      using f z [of 0] z [of 1] z [of 2] z [of 3] z [of 4] z [of 5] by (simp add: defs)
  next
    case 8
    then show ?thesis
      using f z [of 0] z [of 1] z [of 2] z [of 3] z [of 4] z [of 5] z [of 6] by (simp add: defs)
  next
    case 9
    then show ?thesis
      using f z [of 0] z [of 1] z [of 2] z [of 3] z [of 4] z [of 5] z [of 6] z [of 7]
      by (simp add: defs)
  qed
qed

text \<open>
  C4, as the code has it. Let step \<open>js\<close> be the first step of
  \<^verbatim>\<open>CopySubspaceData_CUDA_SpinConserve\<close> that fails (the steps before it succeed), and
  \<open>ja\<close> the first of \<^verbatim>\<open>CopySubspaceData_CUDA_Auto\<close>. The function returns at once: its
  result is the error code of that step (\<^verbatim>\<open>ierr\<close> of \<^verbatim>\<open>PetscMemcpy\<close>, else
  \<^verbatim>\<open>PETSC_ERR_LIB\<close>), not 0, and the device holds exactly the allocations that were
  live before the call and those of the \<^verbatim>\<open>cudaMalloc\<close> calls before the failing step,
  all of them live; no later step has any effect on the result. Nothing is freed.
\<close>

theorem CopySubspaceData_failure:
  assumes "js < 5" and "\<forall>i<js. rs i = 0" and "rs js \<noteq> 0"
    and "ja < 9" and "\<forall>i<ja. ra i = 0" and "ra ja \<noteq> 0"
  shows "CopySubspaceData_CUDA_SpinConserve rs dev
           = (if js = 0 then rs 0 else PETSC_ERR_LIB,
              if js = 4 then Some (fresh dev + 1) else None,
              \<lparr>live = rev [fresh dev..<fresh dev + js div 2] @ live dev,
               fresh = fresh dev + js div 2\<rparr>)
       \<and> fst (CopySubspaceData_CUDA_SpinConserve rs dev) \<noteq> 0
       \<and> (\<forall>rs'. (\<forall>i\<le>js. rs' i = rs i) \<longrightarrow>
              CopySubspaceData_CUDA_SpinConserve rs' dev
                = CopySubspaceData_CUDA_SpinConserve rs dev)
       \<and> CopySubspaceData_CUDA_Auto ra dev
           = (if ja = 0 then ra 0 else PETSC_ERR_LIB,
              if ja = 8 then Some (fresh dev + 3) else None,
              \<lparr>live = rev [fresh dev..<fresh dev + ja div 2] @ live dev,
               fresh = fresh dev + ja div 2\<rparr>)
       \<and> fst (CopySubspaceData_CUDA_Auto ra dev) \<noteq> 0
       \<and> (\<forall>ra'. (\<forall>i\<le>ja. ra' i = ra i) \<longrightarrow>
              CopySubspaceData_CUDA_Auto ra' dev = CopySubspaceData_CUDA_Auto ra dev)"
proof -
  have s: "CopySubspaceData_CUDA_SpinConserve r dev
           = (if js = 0 then rs 0 else PETSC_ERR_LIB,
              if js = 4 then Some (fresh dev + 1) else None,
              allocated (js div 2) dev)"
    if "\<forall>i\<le>js. r i = rs i" for r
  proof -
    have "\<And>i. i < js \<Longrightarrow> r i = 0" "r js \<noteq> 0" "r 0 = rs 0"
      using that assms(2,3) by auto
    then show ?thesis
      using CopySubspaceData_CUDA_SpinConserve_first_failure [OF assms(1), of r dev] by simp
  qed
  have a: "CopySubspaceData_CUDA_Auto r dev
           = (if ja = 0 then ra 0 else PETSC_ERR_LIB,
              if ja = 8 then Some (fresh dev + 3) else None,
              allocated (ja div 2) dev)"
    if "\<forall>i\<le>ja. r i = ra i" for r
  proof -
    have "\<And>i. i < ja \<Longrightarrow> r i = 0" "r ja \<noteq> 0" "r 0 = ra 0"
      using that assms(5,6) by auto
    then show ?thesis
      using CopySubspaceData_CUDA_Auto_first_failure [OF assms(4), of r dev] by simp
  qed
  have n: "(if js = 0 then rs 0 else PETSC_ERR_LIB) \<noteq> 0" "(if ja = 0 then ra 0 else PETSC_ERR_LIB) \<noteq> 0"
    using assms(3,6) by (auto simp: PETSC_ERR_LIB_def)
  show ?thesis
    using s [of rs] a [of ra] s a n by (simp add: allocated_def)
qed

theorem CopySubspaceData_failure_witness:
  "second_malloc_fails 0 = 0 \<and> second_malloc_fails 1 = 0 \<and> second_malloc_fails 2 = 0
   \<and> second_malloc_fails 3 \<noteq> 0
   \<and> CopySubspaceData_CUDA_SpinConserve second_malloc_fails empty_device
       = (PETSC_ERR_LIB, None, \<lparr>live = [0], fresh = 1\<rparr>)
   \<and> third_copy_fails 6 \<noteq> 0
   \<and> CopySubspaceData_CUDA_Auto third_copy_fails empty_device
       = (PETSC_ERR_LIB, None, \<lparr>live = [2, 1, 0], fresh = 3\<rparr>)"
proof -
  have a: "(3::nat) < 5" "\<forall>i<3. second_malloc_fails i = 0" "second_malloc_fails 3 \<noteq> 0"
    by (simp_all add: second_malloc_fails_def)
  have b: "(6::nat) < 9" "\<forall>i<6. third_copy_fails i = 0" "third_copy_fails 6 \<noteq> 0"
    by (simp_all add: third_copy_fails_def)
  have c: "second_malloc_fails 0 = 0" "second_malloc_fails 1 = 0" "second_malloc_fails 2 = 0"
    by (simp_all add: second_malloc_fails_def)
  have u: "rev [0..<Suc 0] = [0]" "rev [0..<3] = [2, 1, 0]"
    by code_simp+
  show ?thesis
    using a(3) b(3) c CopySubspaceData_failure [OF a b, of empty_device]
    by (simp add: empty_device_def u)
qed

section \<open>SpinConserve codec: combinatorial ranking on natural numbers\<close>

lemma rank_from_0 [simp]: "rank_from n kk 0 = 0"
  by (simp add: rank_from.simps)

lemma popcount_0 [simp]: "popcount 0 = 0"
  by (simp add: popcount.simps)

lemma popcount_step: "popcount s = s mod 2 + popcount (s div 2)"
  by (cases "s = 0") (simp_all add: popcount.simps [of s])

lemma popcount_top: "s < 2 ^ m \<Longrightarrow> popcount (s + 2 ^ m) = Suc (popcount s)"
proof (induction m arbitrary: s)
  case 0
  then show ?case by (simp add: popcount.simps [of "Suc 0"])
next
  case (Suc m)
  have d: "(s + 2 ^ Suc m) div 2 = s div 2 + 2 ^ m" by simp
  have p: "(s + 2 ^ Suc m) mod 2 = s mod 2" by (simp add: mod_Suc_eq mod2_eq_if)
  have "s div 2 < 2 ^ m" using Suc.prems by simp
  then have ih: "popcount (s div 2 + 2 ^ m) = Suc (popcount (s div 2))" by (rule Suc.IH)
  have "popcount (s + 2 ^ Suc m) = (s + 2 ^ Suc m) mod 2 + popcount ((s + 2 ^ Suc m) div 2)"
    by (rule popcount_step)
  also have "\<dots> = s mod 2 + Suc (popcount (s div 2))" by (simp only: d p ih)
  also have "\<dots> = Suc (popcount s)" using popcount_step [of s] by simp
  finally show ?case .
qed

lemma rank_from_odd:
  "odd s \<Longrightarrow> rank_from n kk s = (n choose Suc kk) + rank_from (Suc n) (Suc kk) (s div 2)"
  by (subst rank_from.simps) auto

lemma rank_from_even: "even s \<Longrightarrow> rank_from n kk s = rank_from (Suc n) kk (s div 2)"
  by (subst rank_from.simps) auto

lemma rank_from_top:
  "s < 2 ^ m \<Longrightarrow>
   rank_from n kk (s + 2 ^ m) = rank_from n kk s + ((n + m) choose Suc (kk + popcount s))"
proof (induction m arbitrary: n kk s)
  case 0
  then show ?case by (simp add: rank_from_odd)
next
  case (Suc m)
  have d: "(s + 2 ^ Suc m) div 2 = s div 2 + 2 ^ m" by simp
  have o: "odd (s + 2 ^ Suc m) \<longleftrightarrow> odd s" by simp
  have lt: "s div 2 < 2 ^ m" using Suc.prems by simp
  have nm: "Suc n + m = n + Suc m" by simp
  show ?case
  proof (cases "odd s")
    case True
    have pc: "popcount s = Suc (popcount (s div 2))"
      using True by (subst popcount_step) (simp add: odd_iff_mod_2_eq_one)
    have oo: "odd (s + 2 ^ Suc m)" using True o by blast
    have "rank_from n kk (s + 2 ^ Suc m)
          = (n choose Suc kk) + rank_from (Suc n) (Suc kk) ((s + 2 ^ Suc m) div 2)"
      by (rule rank_from_odd [OF oo])
    also have "\<dots> = (n choose Suc kk) + (rank_from (Suc n) (Suc kk) (s div 2)
          + ((Suc n + m) choose Suc (Suc kk + popcount (s div 2))))"
      by (simp only: d Suc.IH [OF lt])
    also have "\<dots> = rank_from n kk s + ((n + Suc m) choose Suc (kk + popcount s))"
      by (simp only: rank_from_odd [OF True] pc nm add_Suc add_Suc_right add.assoc)
    finally show ?thesis .
  next
    case False
    have pc: "popcount s = popcount (s div 2)"
      using False by (subst popcount_step) simp
    have e: "even s" using False by simp
    have ee: "even (s + 2 ^ Suc m)" using False o by blast
    have "rank_from n kk (s + 2 ^ Suc m) = rank_from (Suc n) kk ((s + 2 ^ Suc m) div 2)"
      by (rule rank_from_even [OF ee])
    also have "\<dots> = rank_from (Suc n) kk (s div 2)
          + ((Suc n + m) choose Suc (kk + popcount (s div 2)))"
      by (simp only: d Suc.IH [OF lt])
    also have "\<dots> = rank_from n kk s + ((n + Suc m) choose Suc (kk + popcount s))"
      by (simp only: rank_from_even [OF e] pc nm)
    finally show ?thesis .
  qed
qed

lemma unrank_less: "unrank n k i < 2 ^ n"
proof (induction n arbitrary: k i)
  case 0
  then show ?case by simp
next
  case (Suc n)
  have "unrank n (k - 1) (i - (n choose k)) < 2 ^ n" "unrank n k i < 2 ^ n"
    by (rule Suc.IH)+
  then show ?case by auto
qed

lemma unrank_correct:
  "i < (n choose k) \<Longrightarrow> popcount (unrank n k i) = k \<and> rank_from 0 0 (unrank n k i) = i"
proof (induction n arbitrary: k i)
  case 0
  then show ?case by (cases k) auto
next
  case (Suc n)
  show ?case
  proof (cases "(n choose k) \<le> i")
    case True
    have k: "k \<noteq> 0" using True Suc.prems by (cases k) auto
    then obtain j where j: "k = Suc j" by (cases k) auto
    have "i - (n choose k) < (n choose j)" using True Suc.prems by (simp add: j)
    then have ih: "popcount (unrank n j (i - (n choose k))) = j"
               "rank_from 0 0 (unrank n j (i - (n choose k))) = i - (n choose k)"
      using Suc.IH by auto
    define u where "u = unrank n j (i - (n choose k))"
    have u: "u < 2 ^ n" by (simp add: u_def unrank_less)
    have "unrank (Suc n) k i = u + 2 ^ n" using True by (simp add: u_def j)
    moreover have "popcount (u + 2 ^ n) = k" using popcount_top [OF u] ih by (simp add: u_def j)
    moreover have "rank_from 0 0 (u + 2 ^ n) = i"
      using rank_from_top [OF u, of 0 0] ih True by (simp add: u_def j)
    ultimately show ?thesis by simp
  next
    case False
    then show ?thesis using Suc.IH [of i k] by simp
  qed
qed

lemma rank_correct:
  "s < 2 ^ n \<Longrightarrow> popcount s = k \<Longrightarrow>
   rank_from 0 0 s < (n choose k) \<and> unrank n k (rank_from 0 0 s) = s"
proof (induction n arbitrary: s k)
  case 0
  then show ?case by simp
next
  case (Suc n)
  show ?case
  proof (cases "s < 2 ^ n")
    case True
    then have ih: "rank_from 0 0 s < (n choose k)" "unrank n k (rank_from 0 0 s) = s"
      using Suc.IH Suc.prems by auto
    have "(n choose k) \<le> (Suc n choose k)" by (cases k) auto
    then show ?thesis using ih by simp
  next
    case False
    define t where "t = s - 2 ^ n"
    have s: "s = t + 2 ^ n" and t: "t < 2 ^ n" using False Suc.prems by (auto simp: t_def)
    have pk: "k = Suc (popcount t)" using popcount_top [OF t] Suc.prems s by simp
    have r: "rank_from 0 0 s = rank_from 0 0 t + (n choose k)"
      using rank_from_top [OF t, of 0 0] by (simp add: s pk)
    have ih: "rank_from 0 0 t < (n choose popcount t)"
             "unrank n (popcount t) (rank_from 0 0 t) = t"
      using Suc.IH [OF t refl] by auto
    have "rank_from 0 0 s < (Suc n choose k)" using r ih by (simp add: pk)
    moreover have "unrank (Suc n) k (rank_from 0 0 s) = s"
      using r ih by (simp add: pk s)
    ultimately show ?thesis by simp
  qed
qed

section \<open>SpinConserve codec: the loops compute the ranking\<close>

lemma sint_of_nat_small: "int a < 2147483648 \<Longrightarrow> sint (word_of_nat a :: PetscInt) = int a"
proof -
  assume "int a < 2147483648"
  then have "sint (word_of_int (int a) :: PetscInt) = int a"
    by (intro sint_of_int_self) simp_all
  then show ?thesis by simp
qed

lemma of_nat_sint: "0 \<le> sint (w::PetscInt) \<Longrightarrow> word_of_nat (nat (sint w)) = w"
proof -
  assume "0 \<le> sint w"
  then have "(word_of_nat (nat (sint w)) :: PetscInt) = word_of_int (sint w)"
    by (rule of_nat_nat)
  then show ?thesis by simp
qed

lemma sless_of_nat:
  "int a < 2147483648 \<Longrightarrow> int b < 2147483648 \<Longrightarrow>
   (word_of_nat a :: PetscInt) <s word_of_nat b \<longleftrightarrow> a < b"
  by (simp add: word_sless_alt sint_of_nat_small)

lemma sle_of_nat:
  "int a < 2147483648 \<Longrightarrow> int b < 2147483648 \<Longrightarrow>
   (word_of_nat a :: PetscInt) \<le>s word_of_nat b \<longleftrightarrow> a \<le> b"
  by (simp add: word_sle_eq sint_of_nat_small)

lemma table_read:
  assumes "SpinConserve_ok d" "i \<le> nat (sint (SC_k d))" "n \<le> nat (sint (SC_L d))"
  shows "rd (SC_nchoosek d) (word_of_nat i * SC_ld_nchoosek d + word_of_nat n)
           = Inr (word_of_nat (n choose i))"
    and "int (n choose i) < 2147483648"
proof -
  have *: "case rd (SC_nchoosek d) (word_of_nat i * SC_ld_nchoosek d + word_of_nat n) of
            Inl e \<Rightarrow> False | Inr c \<Rightarrow> sint c = int (n choose i)"
    using assms unfolding SpinConserve_ok_def by blast
  then obtain c where c: "rd (SC_nchoosek d) (word_of_nat i * SC_ld_nchoosek d + word_of_nat n) = Inr c"
    and s: "sint c = int (n choose i)"
    by (auto split: sum.splits)
  have "word_of_int (sint c) = c" by simp
  then have "c = word_of_nat (n choose i)" unfolding s by simp
  then show "rd (SC_nchoosek d) (word_of_nat i * SC_ld_nchoosek d + word_of_nat n)
           = Inr (word_of_nat (n choose i))" using c by simp
  show "int (n choose i) < 2147483648" using sint_upper [of c] s by simp
qed

lemma unat_signed_drop_bit_1:
  assumes "unat (w::PetscInt) < 2 ^ m" "m \<le> 31"
  shows "unat (signed_drop_bit 1 w) = unat w div 2"
proof -
  have "\<not> bit w 31" using assms unat_lt_bits [of w m] by auto
  then have "signed_drop_bit 1 w = drop_bit 1 w"
    by (intro bit_word_eqI) (auto simp: bit_signed_drop_bit_iff bit_drop_bit_eq dest: bit_imp_le_length)
  then show ?thesis by (simp add: drop_bit_eq_div unat_div)
qed

lemma and_1_odd: "(w::PetscInt) AND 1 \<noteq> 0 \<longleftrightarrow> odd (unat w)"
  by (simp add: and_one_eq mod_2_eq_odd word_arith_nat_mod unat_eq_0 flip: even_iff_mod_2_eq_zero)

lemma push_or_1: "push_bit 1 (w::PetscInt) OR 1 = w * 2 + 1"
proof -
  have "(w * 2) AND 1 = 0"
    by (rule bit_word_eqI) (auto simp: bit_and_iff bit_double bit_1_iff)
  then have "w * 2 + 1 = w * 2 OR 1" by (rule disjunctive_add_eq_or)
  then show ?thesis by simp
qed

lemma SpinConserve_ok_bounds:
  assumes "SpinConserve_ok d"
  shows "nat (sint (SC_L d)) \<le> 31" "int (nat (sint (SC_k d))) < 2147483648"
    and "word_of_nat (nat (sint (SC_L d))) = SC_L d"
    and "word_of_nat (nat (sint (SC_k d))) = SC_k d"
  using assms sint_upper [of "SC_k d"] by (auto simp: SpinConserve_ok_def of_nat_sint)

lemma S2I_count_eq:
  assumes ok: "SpinConserve_ok d" and n: "n \<le> nat (sint (SC_L d))"
    and k: "kk + (if odd (unat state) then 1 else 0) \<le> nat (sint (SC_k d))"
  shows "S2I_count d (word_of_nat n) state (word_of_nat kk) idx =
          (if odd (unat state)
           then Inr (word_of_nat (Suc kk), idx + word_of_nat (n choose Suc kk))
           else Inr (word_of_nat kk, idx))"
proof (cases "odd (unat state)")
  case False
  then show ?thesis by (simp add: S2I_count_def and_1_odd)
next
  case True
  note b = SpinConserve_ok_bounds [OF ok]
  have kk: "Suc kk \<le> nat (sint (SC_k d))" using k True by simp
  then have kb: "int (Suc kk) < 2147483648" using b(2) by linarith
  have nb: "int n < 2147483648" using n b(1) by linarith
  have s: "(word_of_nat kk + 1 :: PetscInt) = word_of_nat (Suc kk)" by simp
  have cmp: "(word_of_nat (Suc kk) :: PetscInt) \<le>s word_of_nat n \<longleftrightarrow> Suc kk \<le> n"
    using kb nb by (rule sle_of_nat)
  show ?thesis
  proof (cases "Suc kk \<le> n")
    case le: True
    have "rd (SC_nchoosek d) (word_of_nat (Suc kk) * SC_ld_nchoosek d + word_of_nat n)
           = Inr (word_of_nat (n choose Suc kk))"
      using ok kk n by (rule table_read)
    then show ?thesis
      using True le cmp unfolding S2I_count_def and_1_odd s by simp
  next
    case gt: False
    then have "(word_of_nat (n choose Suc kk) :: PetscInt) = 0" by (simp add: binomial_eq_0)
    then show ?thesis
      using True gt cmp unfolding S2I_count_def and_1_odd s by simp
  qed
qed

lemma S2I_loop_rank:
  assumes ok: "SpinConserve_ok d"
  shows "n \<le> nat (sint (SC_L d)) \<Longrightarrow> unat state < 2 ^ (nat (sint (SC_L d)) - n) \<Longrightarrow>
         kk + popcount (unat state) \<le> nat (sint (SC_k d)) \<Longrightarrow>
         S2I_loop d (word_of_nat n) state (word_of_nat kk) idx
           = Inr (idx + word_of_nat (rank_from n kk (unat state)))"
proof (induction "nat (sint (SC_L d)) - n" arbitrary: n state kk idx)
  case 0
  note b = SpinConserve_ok_bounds [OF ok]
  have "n = nat (sint (SC_L d))" using 0 by simp
  then have "word_of_nat n = SC_L d" using b(3) by simp
  moreover have "unat state = 0" using 0 by simp
  ultimately show ?case
    by (subst S2I_loop.simps) simp
next
  case (Suc m)
  note b = SpinConserve_ok_bounds [OF ok]
  define L where "L = nat (sint (SC_L d))"
  have nL: "n < L" "L - n = Suc m" using Suc.hyps(2) by (simp_all add: L_def)
  have lt: "(word_of_nat n :: PetscInt) <s SC_L d"
  proof -
    have "int n < 2147483648" "int L < 2147483648"
      using nL b(1) unfolding L_def by linarith+
    then have "(word_of_nat n :: PetscInt) <s word_of_nat L \<longleftrightarrow> n < L"
      by (rule sless_of_nat)
    then show ?thesis using nL b(3) by (simp add: L_def)
  qed
  define s where "s = unat state"
  define state' where "state' = signed_drop_bit (Suc 0) state"
  have "unat (signed_drop_bit 1 state) = unat state div 2"
    using Suc.prems(2) by (rule unat_signed_drop_bit_1) (use b(1) in simp)
  then have s': "unat state' = s div 2"
    by (simp add: state'_def s_def)
  have pc: "popcount s = s mod 2 + popcount (s div 2)" by (rule popcount_step)
  define kk' where "kk' = (if odd s then Suc kk else kk)"
  define idx' where "idx' = (if odd s then idx + word_of_nat (n choose Suc kk) else idx)"
  have cnt: "S2I_count d (word_of_nat n) state (word_of_nat kk) idx = Inr (word_of_nat kk', idx')"
  proof -
    have "kk + (if odd (unat state) then 1 else 0) \<le> nat (sint (SC_k d))"
      using Suc.prems(3) pc by (auto simp: s_def odd_iff_mod_2_eq_one)
    then show ?thesis
      using S2I_count_eq [OF ok Suc.prems(1), of kk state idx]
      by (simp add: kk'_def idx'_def s_def)
  qed
  have rec: "S2I_loop d (word_of_nat (Suc n)) state' (word_of_nat kk') idx'
             = Inr (idx' + word_of_nat (rank_from (Suc n) kk' (unat state')))"
  proof (rule Suc.hyps(1))
    show "m = nat (sint (SC_L d)) - Suc n" using nL by (simp add: L_def)
    show "Suc n \<le> nat (sint (SC_L d))" using nL by (simp add: L_def)
    have "s < 2 ^ Suc m" using Suc.prems(2) nL by (simp add: s_def L_def)
    then have "s div 2 < 2 ^ m" by simp
    moreover have "nat (sint (SC_L d)) - Suc n = m" using nL by (simp add: L_def)
    ultimately show "unat state' < 2 ^ (nat (sint (SC_L d)) - Suc n)"
      by (simp add: s')
    show "kk' + popcount (unat state') \<le> nat (sint (SC_k d))"
      using Suc.prems(3) pc by (auto simp: s' kk'_def s_def [symmetric] odd_iff_mod_2_eq_one)
  qed
  have z: "state' = 0 \<Longrightarrow> unat state' = 0" by simp
  have step: "S2I_loop d (word_of_nat n) state (word_of_nat kk) idx
        = Inr (idx' + word_of_nat (rank_from (Suc n) kk' (s div 2)))"
  proof (cases "state' = 0")
    case True
    then have "s div 2 = 0" using s' by simp
    then show ?thesis
      using lt cnt True by (subst S2I_loop.simps) (simp add: state'_def [symmetric])
  next
    case False
    have "S2I_loop d (word_of_nat n + 1) state' (word_of_nat kk') idx'
             = Inr (idx' + word_of_nat (rank_from (Suc n) kk' (s div 2)))"
      using rec by (simp add: add.commute s')
    then show ?thesis
      using lt cnt False
      by (subst S2I_loop.simps) (simp add: state'_def [symmetric])
  qed
  have "idx' + word_of_nat (rank_from (Suc n) kk' (s div 2))
        = idx + word_of_nat (rank_from n kk s)"
  proof (cases "odd s")
    case True
    then show ?thesis by (simp add: idx'_def kk'_def rank_from_odd [OF True])
  next
    case False
    then show ?thesis by (simp add: idx'_def kk'_def rank_from_even)
  qed
  then show ?case using step by (simp add: s_def)
qed

lemma I2S_loop_unrank:
  assumes ok: "SpinConserve_ok d"
  shows "n \<le> nat (sint (SC_L d)) \<Longrightarrow> k \<le> nat (sint (SC_k d)) \<Longrightarrow> idx < (n choose k) \<Longrightarrow>
         I2S_loop d (word_of_nat n) state (word_of_nat k) (word_of_nat idx)
           = Inr (state * 2 ^ n + word_of_nat (unrank n k idx))"
proof (induction n arbitrary: state k idx)
  case 0
  show ?case by (subst I2S_loop.simps) simp
next
  case (Suc n)
  note b = SpinConserve_ok_bounds [OF ok]
  have nL: "n \<le> nat (sint (SC_L d))" using Suc.prems(1) by simp
  have nb: "int n < 2147483648" "int (Suc n) < 2147483648" using Suc.prems(1) b(1) by linarith+
  have kb: "int k < 2147483648" using Suc.prems(2) b(2) by linarith
  have pos: "(0 :: PetscInt) <s word_of_nat (Suc n)"
    using sless_of_nat [of 0 "Suc n"] nb by simp
  have pred: "(word_of_nat (Suc n) - 1 :: PetscInt) = word_of_nat n" by simp
  have cmp: "(word_of_nat n :: PetscInt) <s word_of_nat k \<longleftrightarrow> n < k"
    using nb(1) kb by (rule sless_of_nat)
  have ib: "int idx < 2147483648"
    using table_read(2) [OF ok Suc.prems(2) Suc.prems(1)] Suc.prems(3) by linarith
  define c where "c = (n choose k)"
  have cb: "int c < 2147483648"
    unfolding c_def using ok Suc.prems(2) nL by (rule table_read(2))
  have cur: "(if (word_of_nat n :: PetscInt) <s word_of_nat k then Inr 0
              else rd (SC_nchoosek d) (word_of_nat k * SC_ld_nchoosek d + word_of_nat (Suc n) - 1))
             = Inr (word_of_nat c)"
  proof (cases "n < k")
    case True
    then show ?thesis using cmp by (simp add: c_def binomial_eq_0)
  next
    case False
    have "word_of_nat k * SC_ld_nchoosek d + word_of_nat (Suc n) - 1
          = word_of_nat k * SC_ld_nchoosek d + (word_of_nat n :: PetscInt)"
      by simp
    moreover have "rd (SC_nchoosek d) (word_of_nat k * SC_ld_nchoosek d + word_of_nat n)
          = Inr (word_of_nat c)"
      unfolding c_def using ok Suc.prems(2) nL by (rule table_read(1))
    ultimately show ?thesis using False cmp by simp
  qed
  have cle: "(word_of_nat c :: PetscInt) \<le>s word_of_nat idx \<longleftrightarrow> c \<le> idx"
    using cb ib by (rule sle_of_nat)
  have unf: "I2S_loop d (word_of_nat (Suc n)) state (word_of_nat k) (word_of_nat idx)
        = (if c \<le> idx
           then I2S_loop d (word_of_nat n) (push_bit 1 state OR 1) (word_of_nat k - 1)
                  (word_of_nat idx - word_of_nat c)
           else I2S_loop d (word_of_nat n) (push_bit 1 state) (word_of_nat k) (word_of_nat idx))"
    by (subst I2S_loop.simps) (simp only: pos pred cur cle if_True sum.case)
  show ?case
  proof (cases "c \<le> idx")
    case True
    have k0: "k \<noteq> 0"
    proof
      assume "k = 0"
      then show False using True Suc.prems(3) by (simp add: c_def)
    qed
    then obtain j where j: "k = Suc j" by (cases k) auto
    have jK: "j \<le> nat (sint (SC_k d))" using Suc.prems(2) j by simp
    have il: "idx - c < (n choose j)" using True Suc.prems(3) by (simp add: c_def j)
    have e1: "(word_of_nat k - 1 :: PetscInt) = word_of_nat j" by (simp add: j)
    have e2: "(word_of_nat idx - word_of_nat c :: PetscInt) = word_of_nat (idx - c)"
      using True by simp
    have "I2S_loop d (word_of_nat (Suc n)) state (word_of_nat k) (word_of_nat idx)
          = I2S_loop d (word_of_nat n) (state * 2 + 1) (word_of_nat j) (word_of_nat (idx - c))"
      using True by (simp only: unf if_True push_or_1 e1 e2)
    also have "\<dots> = Inr ((state * 2 + 1) * 2 ^ n + word_of_nat (unrank n j (idx - c)))"
      using nL jK il by (rule Suc.IH)
    also have "\<dots> = Inr (state * 2 ^ Suc n + word_of_nat (unrank (Suc n) k idx))"
      using True by (simp add: c_def j algebra_simps)
    finally show ?thesis .
  next
    case False
    have il: "idx < (n choose k)" using False by (simp add: c_def)
    have p: "push_bit 1 state = state * 2" by simp
    have "I2S_loop d (word_of_nat (Suc n)) state (word_of_nat k) (word_of_nat idx)
          = I2S_loop d (word_of_nat n) (state * 2) (word_of_nat k) (word_of_nat idx)"
      using False by (simp only: unf if_False p)
    also have "\<dots> = Inr ((state * 2) * 2 ^ n + word_of_nat (unrank n k idx))"
      using nL Suc.prems(2) il by (rule Suc.IH)
    also have "\<dots> = Inr (state * 2 ^ Suc n + word_of_nat (unrank (Suc n) k idx))"
      using False by (simp add: c_def algebra_simps)
    finally show ?thesis .
  qed
qed

lemma example_SpinConserve_ok: "SpinConserve_ok example_SpinConserve"
  by code_simp

lemma shr_state:
  assumes "0 \<le> sint (SC_L d)" "sint (SC_L d) \<le> 31"
  shows "shr state (SC_L d) = Inr (signed_drop_bit (nat (sint (SC_L d))) state)"
  using assms by (simp add: shr_def)

lemma signed_drop_bit_eq_0_iff:
  assumes "m \<le> 31"
  shows "signed_drop_bit m (w::PetscInt) = 0 \<longleftrightarrow> (\<forall>n. bit w n \<longrightarrow> n < m)"
proof
  assume z: "signed_drop_bit m w = 0"
  show "\<forall>n. bit w n \<longrightarrow> n < m"
  proof (intro allI impI, rule ccontr)
    fix n assume n: "bit w n" and "\<not> n < m"
    then have "m \<le> n" "n < 32" by (auto dest: bit_imp_le_length)
    then have "bit (signed_drop_bit m w) (n - m)"
      using n by (auto simp: bit_signed_drop_bit_iff)
    then show False using z by simp
  qed
next
  assume a: "\<forall>n. bit w n \<longrightarrow> n < m"
  show "signed_drop_bit m w = 0"
    by (rule bit_word_eqI) (use a assms in \<open>auto simp: bit_signed_drop_bit_iff\<close>)
qed

lemma SpinConserve_member_bits:
  assumes "SpinConserve_ok d"
  shows "SpinConserve_member d state \<longleftrightarrow>
     (\<forall>n. bit state n \<longrightarrow> n < nat (sint (SC_L d))) \<and> CUDA_POPCOUNT state = SC_k d"
proof -
  have "nat (sint (SC_L d)) \<le> 31" using assms by (rule SpinConserve_ok_bounds)
  then have "(0 \<le> sint state \<and> sint state < 2 ^ nat (sint (SC_L d)))
        \<longleftrightarrow> (\<forall>n. bit state n \<longrightarrow> n < nat (sint (SC_L d)))"
    by (rule sint_range_bits)
  then show ?thesis by (auto simp: SpinConserve_member_def)
qed

lemma popcount_eq_k:
  assumes ok: "SpinConserve_ok d"
  shows "CUDA_POPCOUNT state = SC_k d \<longleftrightarrow> popcount (unat state) = nat (sint (SC_k d))"
proof -
  note b = SpinConserve_ok_bounds [OF ok]
  define p where "p = popcount (unat state)"
  have p: "p \<le> 32" using card_bits_le [of state] by (simp add: p_def popcount_card bits_unat)
  then have "int p < 2147483648" by linarith
  then have sp: "sint (word_of_nat p :: PetscInt) = int p" by (rule sint_of_nat_small)
  have sk: "sint (SC_k d) = int (nat (sint (SC_k d)))" using ok by (simp add: SpinConserve_ok_def)
  have "CUDA_POPCOUNT state = SC_k d \<longleftrightarrow> word_of_nat p = SC_k d"
    by (simp add: CUDA_POPCOUNT_def p_def)
  also have "\<dots> \<longleftrightarrow> sint (word_of_nat p :: PetscInt) = sint (SC_k d)"
    by (auto simp: signed_word_eqI)
  also have "\<dots> \<longleftrightarrow> p = nat (sint (SC_k d))" using sp sk by linarith
  finally show ?thesis by (simp add: p_def)
qed

lemma S2I_member:
  assumes ok: "SpinConserve_ok d" and mem: "SpinConserve_member d state"
  shows "S2I_CUDA_SpinConserve state d = Inr (word_of_nat (rank_from 0 0 (unat state)))"
    and "unat state < 2 ^ nat (sint (SC_L d))"
    and "popcount (unat state) = nat (sint (SC_k d))"
proof -
  note b = SpinConserve_ok_bounds [OF ok]
  have L: "0 \<le> sint (SC_L d)" "sint (SC_L d) \<le> 31" using ok by (auto simp: SpinConserve_ok_def)
  have bits: "\<forall>n. bit state n \<longrightarrow> n < nat (sint (SC_L d))"
    and pk: "CUDA_POPCOUNT state = SC_k d"
    using mem by (auto simp: SpinConserve_member_bits [OF ok])
  show u: "unat state < 2 ^ nat (sint (SC_L d))" using bits by (simp add: unat_lt_bits)
  show p: "popcount (unat state) = nat (sint (SC_k d))" using pk popcount_eq_k [OF ok] by simp
  have z: "signed_drop_bit (nat (sint (SC_L d))) state = 0"
    using bits b(1) by (simp add: signed_drop_bit_eq_0_iff)
  have "S2I_loop d (word_of_nat 0) state (word_of_nat 0) 0
        = Inr (0 + word_of_nat (rank_from 0 0 (unat state)))"
    by (rule S2I_loop_rank [OF ok]) (use u p in simp_all)
  then show "S2I_CUDA_SpinConserve state d = Inr (word_of_nat (rank_from 0 0 (unat state)))"
    using z pk by (simp add: S2I_CUDA_SpinConserve_def shr_state [OF L])
qed

lemma I2S_index:
  assumes ok: "SpinConserve_ok d" and ix: "SpinConserve_index d i"
  shows "I2S_CUDA_SpinConserve i d
         = Inr (word_of_nat (unrank (nat (sint (SC_L d))) (nat (sint (SC_k d))) (nat (sint i))))"
proof -
  note b = SpinConserve_ok_bounds [OF ok]
  have i: "0 \<le> sint i" "nat (sint i) < (nat (sint (SC_L d)) choose nat (sint (SC_k d)))"
    using ix by (auto simp: SpinConserve_index_def)
  have "I2S_loop d (word_of_nat (nat (sint (SC_L d)))) 0 (word_of_nat (nat (sint (SC_k d))))
          (word_of_nat (nat (sint i)))
        = Inr (0 * 2 ^ nat (sint (SC_L d))
               + word_of_nat (unrank (nat (sint (SC_L d))) (nat (sint (SC_k d))) (nat (sint i))))"
    by (rule I2S_loop_unrank [OF ok]) (use i in simp_all)
  then show ?thesis
    using b(3,4) of_nat_sint [OF i(1)] by (simp add: I2S_CUDA_SpinConserve_def)
qed

lemma index_of_nat:
  assumes ok: "SpinConserve_ok d"
    and r: "r < (nat (sint (SC_L d)) choose nat (sint (SC_k d)))"
  shows "SpinConserve_index d (word_of_nat r)" and "nat (sint (word_of_nat r :: PetscInt)) = r"
proof -
  have "int (nat (sint (SC_L d)) choose nat (sint (SC_k d))) < 2147483648"
    by (rule table_read(2) [OF ok]) simp_all
  then have "int r < 2147483648" using r by linarith
  then have s: "sint (word_of_nat r :: PetscInt) = int r" by (rule sint_of_nat_small)
  show "SpinConserve_index d (word_of_nat r)" using r by (simp add: SpinConserve_index_def s)
  show "nat (sint (word_of_nat r :: PetscInt)) = r" by (simp add: s)
qed

lemma member_of_nat:
  assumes ok: "SpinConserve_ok d"
    and u: "u < 2 ^ nat (sint (SC_L d))" and p: "popcount u = nat (sint (SC_k d))"
  shows "SpinConserve_member d (word_of_nat u)" and "unat (word_of_nat u :: PetscInt) = u"
proof -
  note b = SpinConserve_ok_bounds [OF ok]
  have "(2::nat) ^ nat (sint (SC_L d)) \<le> 2 ^ 31" using b(1) by (intro power_increasing) simp_all
  then have u31: "u < 2 ^ 31" using u by linarith
  then have "u < 2 ^ LENGTH(32)" by simp
  then show un: "unat (word_of_nat u :: PetscInt) = u" by (simp only: unat_of_nat mod_less)
  have "\<forall>n. bit (word_of_nat u :: PetscInt) n \<longrightarrow> n < nat (sint (SC_L d))"
    using u un unat_lt_bits [of "word_of_nat u" "nat (sint (SC_L d))"] by simp
  moreover have "CUDA_POPCOUNT (word_of_nat u) = SC_k d"
    using p un popcount_eq_k [OF ok, of "word_of_nat u"] by simp
  ultimately show "SpinConserve_member d (word_of_nat u)"
    by (simp add: SpinConserve_member_bits [OF ok])
qed

lemma SpinConserve_encode_decode:
  assumes ok: "SpinConserve_ok d" and mem: "SpinConserve_member d state"
  shows "\<exists>idx. S2I_CUDA_SpinConserve state d = Inr idx \<and> SpinConserve_index d idx
               \<and> I2S_CUDA_SpinConserve idx d = Inr state"
proof -
  define L K where "L = nat (sint (SC_L d))" and "K = nat (sint (SC_k d))"
  define r where "r = rank_from 0 0 (unat state)"
  note m = S2I_member [OF ok mem]
  have rc: "r < (L choose K)" "unrank L K r = unat state"
    using rank_correct [OF m(2) m(3)] by (simp_all add: r_def L_def K_def)
  have ix: "SpinConserve_index d (word_of_nat r)" and nr: "nat (sint (word_of_nat r :: PetscInt)) = r"
    using index_of_nat [OF ok, of r] rc(1) by (simp_all add: L_def K_def)
  have "I2S_CUDA_SpinConserve (word_of_nat r) d = Inr (word_of_nat (unat state))"
    using I2S_index [OF ok ix] rc(2) nr by (simp add: L_def K_def)
  then have "I2S_CUDA_SpinConserve (word_of_nat r) d = Inr state" by simp
  then show ?thesis using m(1) ix by (auto simp: r_def)
qed

lemma SpinConserve_decode_encode:
  assumes ok: "SpinConserve_ok d" and ix: "SpinConserve_index d idx"
  shows "\<exists>state. I2S_CUDA_SpinConserve idx d = Inr state \<and> SpinConserve_member d state
               \<and> S2I_CUDA_SpinConserve state d = Inr idx"
proof -
  define L K where "L = nat (sint (SC_L d))" and "K = nat (sint (SC_k d))"
  define i where "i = nat (sint idx)"
  define u where "u = unrank L K i"
  have i: "0 \<le> sint idx" "i < (L choose K)"
    using ix by (auto simp: SpinConserve_index_def i_def L_def K_def)
  have uc: "popcount u = K" "rank_from 0 0 u = i"
    using unrank_correct [OF i(2)] by (simp_all add: u_def)
  have ul: "u < 2 ^ L" by (simp add: u_def unrank_less)
  have mem: "SpinConserve_member d (word_of_nat u)" and un: "unat (word_of_nat u :: PetscInt) = u"
    using member_of_nat [OF ok, of u] ul uc(1) by (simp_all add: L_def K_def)
  have dec: "I2S_CUDA_SpinConserve idx d = Inr (word_of_nat u)"
    using I2S_index [OF ok ix] by (simp add: u_def i_def L_def K_def)
  have "S2I_CUDA_SpinConserve (word_of_nat u) d = Inr (word_of_nat i)"
    using S2I_member(1) [OF ok mem] un uc(2) by simp
  moreover have "(word_of_nat i :: PetscInt) = idx" unfolding i_def using i(1) by (rule of_nat_sint)
  ultimately show ?thesis using dec mem by auto
qed

text \<open>
  C1. For the SpinConserve codec with site count \<^verbatim>\<open>L\<close>, weight \<^verbatim>\<open>k\<close> and a binomial
  table that satisfies its contract: every state of width at most \<^verbatim>\<open>L\<close> and
  population count \<^verbatim>\<open>k\<close> is encoded to an index of \<open>[0, L choose k)\<close> that decodes
  to the state again, and every index of \<open>[0, L choose k)\<close> is decoded to such a state
  that encodes to the index again.
\<close>

theorem SpinConserve_roundtrip:
  assumes "SpinConserve_ok d"
  shows "(\<forall>state. SpinConserve_member d state \<longrightarrow>
            (\<exists>idx. S2I_CUDA_SpinConserve state d = Inr idx \<and> SpinConserve_index d idx
                   \<and> I2S_CUDA_SpinConserve idx d = Inr state))
       \<and> (\<forall>idx. SpinConserve_index d idx \<longrightarrow>
            (\<exists>state. I2S_CUDA_SpinConserve idx d = Inr state \<and> SpinConserve_member d state
                   \<and> S2I_CUDA_SpinConserve state d = Inr idx))"
  using SpinConserve_encode_decode [OF assms] SpinConserve_decode_encode [OF assms] by blast

theorem SpinConserve_roundtrip_witness:
  "SpinConserve_ok example_SpinConserve
   \<and> SpinConserve_member example_SpinConserve 5
   \<and> S2I_CUDA_SpinConserve 5 example_SpinConserve = Inr 1
   \<and> I2S_CUDA_SpinConserve 1 example_SpinConserve = Inr 5
   \<and> SpinConserve_index example_SpinConserve 1"
proof -
  have a: "SpinConserve_ok example_SpinConserve" by (rule example_SpinConserve_ok)
  have b: "SpinConserve_member example_SpinConserve 5" by code_simp
  have c: "S2I_CUDA_SpinConserve 5 example_SpinConserve = Inr 1" by code_simp
  obtain idx where "S2I_CUDA_SpinConserve 5 example_SpinConserve = Inr idx"
    "SpinConserve_index example_SpinConserve idx"
    "I2S_CUDA_SpinConserve idx example_SpinConserve = Inr 5"
    using SpinConserve_roundtrip [OF a] b by blast
  then show ?thesis using a b c by simp
qed

text \<open>
  C5. For the SpinConserve codec with a well-formed table: a state is a member exactly
  when it uses no bit at a position \<open>\<ge> L\<close> and its population count is \<^verbatim>\<open>k\<close>;
  \<^verbatim>\<open>S2I_CUDA_SpinConserve\<close> returns the sentinel -1 for every state that is not a
  member, and an index other than -1 for every member.
\<close>

theorem S2I_CUDA_SpinConserve_rejects:
  assumes "SpinConserve_ok d"
  shows "(SpinConserve_member d state \<longleftrightarrow>
            (\<forall>n. bit state n \<longrightarrow> n < nat (sint (SC_L d))) \<and> CUDA_POPCOUNT state = SC_k d)
       \<and> (\<not> SpinConserve_member d state \<longrightarrow> S2I_CUDA_SpinConserve state d = Inr (- 1))
       \<and> (SpinConserve_member d state \<longrightarrow>
            (\<exists>idx. S2I_CUDA_SpinConserve state d = Inr idx \<and> idx \<noteq> - 1))"
proof (intro conjI impI)
  show m: "SpinConserve_member d state \<longleftrightarrow>
      (\<forall>n. bit state n \<longrightarrow> n < nat (sint (SC_L d))) \<and> CUDA_POPCOUNT state = SC_k d"
    using assms by (rule SpinConserve_member_bits)
  have L: "0 \<le> sint (SC_L d)" "sint (SC_L d) \<le> 31" "nat (sint (SC_L d)) \<le> 31"
    using assms by (auto simp: SpinConserve_ok_def)
  show "S2I_CUDA_SpinConserve state d = Inr (- 1)" if "\<not> SpinConserve_member d state"
  proof -
    have "signed_drop_bit (nat (sint (SC_L d))) state \<noteq> 0 \<or> CUDA_POPCOUNT state \<noteq> SC_k d"
      using that m signed_drop_bit_eq_0_iff [OF L(3), of state] by blast
    then show ?thesis
      by (auto simp: S2I_CUDA_SpinConserve_def shr_state [OF L(1,2)])
  qed
  show "\<exists>idx. S2I_CUDA_SpinConserve state d = Inr idx \<and> idx \<noteq> - 1"
    if mem: "SpinConserve_member d state"
  proof -
    obtain idx where i: "S2I_CUDA_SpinConserve state d = Inr idx" "SpinConserve_index d idx"
      using SpinConserve_encode_decode [OF assms mem] by blast
    then have "0 \<le> sint idx" by (simp add: SpinConserve_index_def)
    then have "idx \<noteq> - 1" by auto
    with i show ?thesis by blast
  qed
qed

theorem S2I_CUDA_SpinConserve_rejects_witness:
  "SpinConserve_ok example_SpinConserve
   \<and> S2I_CUDA_SpinConserve 16 example_SpinConserve = Inr (- 1)
   \<and> S2I_CUDA_SpinConserve 7 example_SpinConserve = Inr (- 1)
   \<and> SpinConserve_member example_SpinConserve 5
   \<and> (\<exists>idx. S2I_CUDA_SpinConserve 5 example_SpinConserve = Inr idx \<and> idx \<noteq> - 1)"
proof -
  have a: "SpinConserve_ok example_SpinConserve" by (rule example_SpinConserve_ok)
  have b: "\<not> SpinConserve_member example_SpinConserve 16" by code_simp
  have c: "\<not> SpinConserve_member example_SpinConserve 7" by code_simp
  have e: "SpinConserve_member example_SpinConserve 5" by code_simp
  show ?thesis
    using a b c e S2I_CUDA_SpinConserve_rejects [OF a, of 16]
      S2I_CUDA_SpinConserve_rejects [OF a, of 7] S2I_CUDA_SpinConserve_rejects [OF a, of 5]
    by blast
qed

lemma word_cases_6:
  assumes "0 \<le> sint (i::PetscInt)" "sint i < 6"
  shows "i \<in> {0, 1, 2, 3, 4, 5}"
proof -
  have "sint i = 0 \<or> sint i = 1 \<or> sint i = 2 \<or> sint i = 3 \<or> sint i = 4 \<or> sint i = 5"
    using assms by linarith
  moreover have "word_of_int (sint i) = i" by simp
  ultimately show ?thesis by (metis insertCI of_int_0 of_int_1 of_int_numeral)
qed

lemma unrank_4_2: "map (unrank 4 2) [0, 1, 2, 3, 4, 5] = [3, 5, 6, 9, 10, 12]"
  by code_simp

lemma rank_4_2: "map (rank_from 0 0) [3, 5, 6, 9, 10, 12] = [0, 1, 2, 3, 4, 5]"
  by code_simp

lemma choose_4_2: "(4::nat) choose 2 = 6"
  by code_simp

text \<open>
  C7. For \<^verbatim>\<open>L = 4\<close>, \<^verbatim>\<open>k = 2\<close> and any table that satisfies its contract: the
  dimension is \<open>4 choose 2 = 6\<close>, index 0 decodes to \<open>0b0011\<close>, index 5 to
  \<open>0b1100\<close>, the indices 0 to 5 decode to 3, 5, 6, 9, 10, 12, these states encode to
  0 to 5 in this order, and they are exactly the states of weight 2 over 4 bits.
\<close>

theorem SpinConserve_L4_k2:
  assumes ok: "SpinConserve_ok d" and L: "SC_L d = 4" and k: "SC_k d = 2"
  shows "(nat (sint (SC_L d)) choose nat (sint (SC_k d))) = 6
       \<and> I2S_CUDA_SpinConserve 0 d = Inr 3
       \<and> I2S_CUDA_SpinConserve 5 d = Inr 12
       \<and> map (\<lambda>i. I2S_CUDA_SpinConserve i d) [0, 1, 2, 3, 4, 5] = map Inr [3, 5, 6, 9, 10, 12]
       \<and> map (\<lambda>s. S2I_CUDA_SpinConserve s d) [3, 5, 6, 9, 10, 12] = map Inr [0, 1, 2, 3, 4, 5]
       \<and> {s. SpinConserve_member d s} = {3, 5, 6, 9, 10, 12}"
proof -
  have LK: "nat (sint (SC_L d)) = 4" "nat (sint (SC_k d)) = 2" by (simp_all add: L k)
  have dim: "(nat (sint (SC_L d)) choose nat (sint (SC_k d))) = 6"
    by (simp only: LK choose_4_2)
  have ix: "SpinConserve_index d i \<longleftrightarrow> i \<in> {0, 1, 2, 3, 4, 5}" for i
  proof
    assume "SpinConserve_index d i"
    then show "i \<in> {0, 1, 2, 3, 4, 5}"
      unfolding SpinConserve_index_def dim by (intro word_cases_6) simp_all
  next
    assume "i \<in> {0, 1, 2, 3, 4, 5}"
    then show "SpinConserve_index d i"
      unfolding SpinConserve_index_def dim by auto
  qed
  have dec: "I2S_CUDA_SpinConserve i d = Inr (word_of_nat (unrank 4 2 (nat (sint i))))"
    if "i \<in> {0, 1, 2, 3, 4, 5}" for i
    using I2S_index [OF ok, of i] that ix unfolding LK by blast
  have u: "unrank 4 2 0 = 3" "unrank 4 2 1 = 5" "unrank 4 2 2 = 6"
    "unrank 4 2 3 = 9" "unrank 4 2 4 = 10" "unrank 4 2 5 = 12"
    using unrank_4_2 by simp_all
  have d0: "I2S_CUDA_SpinConserve 0 d = Inr 3" using dec [of 0] u by simp
  have d1: "I2S_CUDA_SpinConserve 1 d = Inr 5" using dec [of 1] u by simp
  have d2: "I2S_CUDA_SpinConserve 2 d = Inr 6" using dec [of 2] u by simp
  have d3: "I2S_CUDA_SpinConserve 3 d = Inr 9" using dec [of 3] u by simp
  have d4: "I2S_CUDA_SpinConserve 4 d = Inr 10" using dec [of 4] u by simp
  have d5: "I2S_CUDA_SpinConserve 5 d = Inr 12" using dec [of 5] u by simp
  have mem: "SpinConserve_member d s" if s: "s \<in> {3, 5, 6, 9, 10, 12}" for s
  proof -
    have "\<exists>i \<in> {0, 1, 2, 3, 4, 5}. I2S_CUDA_SpinConserve i d = Inr s"
      using s d0 d1 d2 d3 d4 d5 by auto
    then obtain i where "i \<in> {0, 1, 2, 3, 4, 5}" "I2S_CUDA_SpinConserve i d = Inr s"
      by blast
    then show ?thesis
      using SpinConserve_decode_encode [OF ok, of i] ix by auto
  qed
  have enc: "S2I_CUDA_SpinConserve s d = Inr (word_of_nat (rank_from 0 0 (unat s)))"
    if "s \<in> {3, 5, 6, 9, 10, 12}" for s
    using S2I_member(1) [OF ok mem [OF that]] .
  have r: "rank_from 0 0 3 = 0" "rank_from 0 0 5 = 1" "rank_from 0 0 6 = 2"
    "rank_from 0 0 9 = 3" "rank_from 0 0 10 = 4" "rank_from 0 0 12 = 5"
    using rank_4_2 by simp_all
  have e: "S2I_CUDA_SpinConserve 3 d = Inr 0" "S2I_CUDA_SpinConserve 5 d = Inr 1"
    "S2I_CUDA_SpinConserve 6 d = Inr 2" "S2I_CUDA_SpinConserve 9 d = Inr 3"
    "S2I_CUDA_SpinConserve 10 d = Inr 4" "S2I_CUDA_SpinConserve 12 d = Inr 5"
    using enc [of 3] enc [of 5] enc [of 6] enc [of 9] enc [of 10] enc [of 12] r by simp_all
  have sub: "s \<in> {3, 5, 6, 9, 10, 12}" if s: "SpinConserve_member d s" for s
  proof -
    obtain i where "SpinConserve_index d i" "I2S_CUDA_SpinConserve i d = Inr s"
      using SpinConserve_encode_decode [OF ok s] by blast
    then show ?thesis using ix d0 d1 d2 d3 d4 d5 by auto
  qed
  have set: "{s. SpinConserve_member d s} = {3, 5, 6, 9, 10, 12}"
    using mem sub by blast
  show ?thesis using dim d0 d1 d2 d3 d4 d5 e set by simp
qed

theorem SpinConserve_L4_k2_witness:
  "SpinConserve_ok example_SpinConserve \<and> SC_L example_SpinConserve = 4
   \<and> SC_k example_SpinConserve = 2
   \<and> I2S_CUDA_SpinConserve 0 example_SpinConserve = Inr 3
   \<and> I2S_CUDA_SpinConserve 5 example_SpinConserve = Inr 12"
proof -
  have a: "SpinConserve_ok example_SpinConserve" by (rule example_SpinConserve_ok)
  have b: "SC_L example_SpinConserve = 4" "SC_k example_SpinConserve = 2"
    by (simp_all add: example_SpinConserve_def)
  show ?thesis using a b SpinConserve_L4_k2 [OF a b] by simp
qed

end
